theory Spec2Isabelle
  imports Complex_Main "HOL-Library.AList"
begin

section \<open>Command (src/Command.ts)\<close>

subsection \<open>Collaborators at their interface\<close>

text \<open>
  A method only reads three things of the activating message: the author's id, the guild's
  id and the nsfw flag of the channel. The discord.js typings declare all three as present,
  so they are plain fields here.
\<close>

record message =
  author_id :: string
  guild_id :: string
  channel_nsfw :: bool

text \<open>The addon hands the permission service to the command (\<open>this.addon.permissions\<close>).\<close>

record addon =
  permissions_check :: "int \<Rightarrow> message \<Rightarrow> bool"
  permissions_checkExact :: "int \<Rightarrow> message \<Rightarrow> bool"

datatype nebula_error = NebulaError string

subsection \<open>Options\<close>

text \<open>
  \<open>LimitOptions\<close>, \<open>PermissionOptions\<close>, \<open>SubcommandsOptions\<close> and
  \<open>OptionalCommandOptions\<close> as the caller passes them: a property that may be left out
  (or that the constructor compares with \<open>null\<close>) is an \<open>option\<close>. The bucket
  is a JavaScript number, of which the constructor only requires that it is positive: it
  is a rational here. Times are integers, the milliseconds of \<open>Date.now()\<close>, and so
  are permission levels. A class of the
  subcommand list either extends \<open>Command\<close>, and then its constructor passes its own
  options to \<open>super\<close> and it may define the hook \<open>shouldDispatch\<close>, or it is some
  other class. The \<open>schema\<close> option is stored untouched and read by no method below.
\<close>

record limit_options =
  arg_bucket :: "rat option"
  arg_time :: "int option"
  arg_scope :: "string option"

record permission_options =
  arg_exact :: "bool option"
  arg_level :: "int option"

datatype optional_command_options =
  OptionalCommandOptions
    (arg_name: "string option")
    (arg_alias: "string list option")
    (arg_description: "string option")
    (arg_nsfw: "bool option")
    (arg_isSubcommand: "bool option")
    (arg_requiredPermissions: "string list option")
    (arg_limit: "limit_options option")
    (arg_subcommands: "subcommands_options option")
    (arg_permission: "permission_options option")
and subcommands_options =
  SubcommandsOptions
    (arg_defaultToFirst: "bool option")
    (arg_commands: "constructor list option")
and constructor =
  CommandSubclass optional_command_options "(message \<Rightarrow> bool) option"
| OtherClass

text \<open>\<open>CommandOptions\<close>: the options after the merge with the defaults, all present.\<close>

record required_limit_options =
  bucket :: rat
  time :: int
  scope :: string

record required_subcommands_options =
  defaultToFirst :: bool
  commands :: "constructor list"

record required_permission_options =
  exact :: bool
  level :: int

record command_options =
  name :: string
  alias' :: "string list"
  description :: string
  nsfw :: bool
  limit :: required_limit_options
  subcommands :: required_subcommands_options
  isSubcommand :: bool
  permission :: required_permission_options
  requiredPermissions :: "string list"

definition limitScopes :: "string list" where
  "limitScopes = [''user'', ''guild'']"

definition defaultOptions :: command_options where
  "defaultOptions =
     \<lparr>name = '''', alias' = [], description = '''', nsfw = False,
      limit = \<lparr>bucket = 1, time = 0, scope = ''user''\<rparr>,
      subcommands = \<lparr>defaultToFirst = False, commands = []\<rparr>,
      isSubcommand = False,
      permission = \<lparr>exact = False, level = 0\<rparr>,
      requiredPermissions = []\<rparr>"

text \<open>
  \<open>merge({}, defaultOptions, options)\<close>: a property the caller gave replaces the default,
  one that is left out keeps it, and nested objects are merged property by property.
\<close>

definition or_default :: "'a \<Rightarrow> 'a option \<Rightarrow> 'a" where
  "or_default d x = (case x of None \<Rightarrow> d | Some v \<Rightarrow> v)"

definition merge_limit :: "required_limit_options \<Rightarrow> limit_options option \<Rightarrow> required_limit_options" where
  "merge_limit d x =
     (case x of
        None \<Rightarrow> d
      | Some l \<Rightarrow>
          \<lparr>bucket = or_default (bucket d) (arg_bucket l),
           time = or_default (time d) (arg_time l),
           scope = or_default (scope d) (arg_scope l)\<rparr>)"

definition merge_subcommands ::
  "required_subcommands_options \<Rightarrow> subcommands_options option \<Rightarrow> required_subcommands_options" where
  "merge_subcommands d x =
     (case x of
        None \<Rightarrow> d
      | Some s \<Rightarrow>
          \<lparr>defaultToFirst = or_default (defaultToFirst d) (arg_defaultToFirst s),
           commands = or_default (commands d) (arg_commands s)\<rparr>)"

definition merge_permission ::
  "required_permission_options \<Rightarrow> permission_options option \<Rightarrow> required_permission_options" where
  "merge_permission d x =
     (case x of
        None \<Rightarrow> d
      | Some p \<Rightarrow>
          \<lparr>exact = or_default (exact d) (arg_exact p),
           level = or_default (level d) (arg_level p)\<rparr>)"

definition merge :: "command_options \<Rightarrow> optional_command_options \<Rightarrow> command_options" where
  "merge d x =
     \<lparr>name = or_default (name d) (arg_name x),
      alias' = or_default (alias' d) (arg_alias x),
      description = or_default (description d) (arg_description x),
      nsfw = or_default (nsfw d) (arg_nsfw x),
      limit = merge_limit (limit d) (arg_limit x),
      subcommands = merge_subcommands (subcommands d) (arg_subcommands x),
      isSubcommand = or_default (isSubcommand d) (arg_isSubcommand x),
      permission = merge_permission (permission d) (arg_permission x),
      requiredPermissions = or_default (requiredPermissions d) (arg_requiredPermissions x)\<rparr>"

subsection \<open>The state of a command\<close>

text \<open>
  The fields a method writes: the usage ledger, a \<open>Discord.Collection\<close> (a JavaScript
  \<open>Map\<close>, which keeps insertion order) from scope id to \<open>[bucket, time]\<close>, and the
  handle of the sweep interval (\<open>null\<close> is \<open>None\<close>; the handle carries its period in
  milliseconds).
\<close>

datatype timeout = Timeout nat

record command_state =
  usage :: "(string \<times> rat \<times> int) list"
  sweepInterval :: "timeout option"

text \<open>
  An instance. \<open>oid\<close> is the identity of the object: two instances of one class with equal
  fields are still two objects.
\<close>

datatype command =
  Command
    (oid: nat)
    (addon: addon)
    (options: command_options)
    (shouldDispatch: "(message \<Rightarrow> bool) option")
    (state: command_state)
    (instantiatedSubcommands: "command list")

subsection \<open>The constructor\<close>

text \<open>The checks of the options, in the order of the source; \<open>None\<close> when none throws.\<close>

definition check_limit :: "limit_options option \<Rightarrow> nebula_error option" where
  "check_limit x =
     (case x of
        None \<Rightarrow> None
      | Some l \<Rightarrow>
          if arg_scope l \<noteq> None \<and> the (arg_scope l) \<notin> set limitScopes
          then Some (NebulaError ''The limit scope must be either user or guild'')
          else if arg_bucket l \<noteq> None \<and> the (arg_bucket l) \<le> 0
          then Some (NebulaError ''The limit bucket must be greater than 1'')
          else if arg_time l = None
          then Some (NebulaError
            ''The limit time must be specified when the limit options are specified'')
          else if the (arg_time l) \<le> 0
          then Some (NebulaError ''The limit must be greater than 0'')
          else None)"

definition check_subcommands :: "subcommands_options option \<Rightarrow> nebula_error option" where
  "check_subcommands x =
     (case x of
        None \<Rightarrow> None
      | Some s \<Rightarrow>
          if arg_commands s = None \<or> length (the (arg_commands s)) = 0
          then Some (NebulaError
            ''The commands for subcommands options must have at least a command'')
          else None)"

definition check_permission :: "permission_options option \<Rightarrow> nebula_error option" where
  "check_permission x =
     (case x of
        None \<Rightarrow> None
      | Some p \<Rightarrow>
          if arg_level p = None
          then Some (NebulaError
            ''The permission level must be specified when permission options are specified'')
          else None)"

definition check_options :: "optional_command_options \<Rightarrow> nebula_error option" where
  "check_options x =
     (if arg_name x = None
      then Some (NebulaError ''The name of the command must be specified'')
      else case check_limit (arg_limit x) of
        Some e \<Rightarrow> Some e
      | None \<Rightarrow>
          (case check_subcommands (arg_subcommands x) of
             Some e \<Rightarrow> Some e
           | None \<Rightarrow> check_permission (arg_permission x)))"

text \<open>The merged list of subcommand classes is part of the options it comes from.\<close>

lemma size_arg_commands: "arg_commands s = Some cs \<Longrightarrow> size_list size cs \<le> size s"
  by (cases s) auto

lemma size_merged_commands:
  "size_list size (commands (subcommands (merge defaultOptions x))) \<le> size x"
  by (cases x)
     (auto simp: merge_def merge_subcommands_def or_default_def defaultOptions_def
           split: option.splits dest!: size_arg_commands)

text \<open>
  Every \<open>new Subcommand(this.addon)\<close> that a constructor runs is recorded: the identity
  of the parent that runs it, the class, and the identity that the new object takes.
\<close>

datatype new_event = New nat constructor nat

fun new_parent :: "new_event \<Rightarrow> nat" where
  "new_parent (New p c k) = p"

fun new_class :: "new_event \<Rightarrow> constructor" where
  "new_class (New p c k) = c"

fun new_object :: "new_event \<Rightarrow> nat" where
  "new_object (New p c k) = k"

text \<open>
  \<open>Command_constructor ad hook x n\<close> is \<open>new C(ad)\<close> for a class \<open>C\<close> that extends
  Command, passes \<open>x\<close> to \<open>super\<close> and defines \<open>shouldDispatch\<close> as \<open>hook\<close>;
  \<open>n\<close> is the next free object identity, which the new object takes once the checks of
  the options have passed. It throws (\<open>Inl\<close>) or returns the instance, the next free
  identity and the record of the instantiations that ran, those of the subcommands'
  own constructors included.
  \<open>map_subcommands ad p cs n\<close> is the \<open>map\<close> over the subcommand classes, run by the
  parent \<open>p\<close>.
\<close>

function Command_constructor ::
    "addon \<Rightarrow> (message \<Rightarrow> bool) option \<Rightarrow> optional_command_options \<Rightarrow> nat \<Rightarrow>
       nebula_error + (command \<times> nat \<times> new_event list)"
  and map_subcommands ::
    "addon \<Rightarrow> nat \<Rightarrow> constructor list \<Rightarrow> nat \<Rightarrow>
       nebula_error + (command list \<times> nat \<times> new_event list)"
where
  "Command_constructor ad hook x n =
     (case check_options x of
        Some e \<Rightarrow> Inl e
      | None \<Rightarrow>
          let mergedOptions = merge defaultOptions x in
          (case map_subcommands ad n (commands (subcommands mergedOptions)) (Suc n) of
             Inl e \<Rightarrow> Inl e
           | Inr (subs, n', evs) \<Rightarrow>
               Inr (Command n ad mergedOptions hook \<lparr>usage = [], sweepInterval = None\<rparr> subs,
                    n', evs)))"
| "map_subcommands ad p [] n = Inr ([], n, [])"
| "map_subcommands ad p (Subcommand # rest) n =
     (case Subcommand of
        OtherClass \<Rightarrow> Inl (NebulaError ''subcommands must inherit the Command structure'')
      | CommandSubclass x hook \<Rightarrow>
          (case Command_constructor ad hook x n of
             Inl e \<Rightarrow> Inl e
           | Inr (subcommand, n1, evs1) \<Rightarrow>
               if \<not> isSubcommand (options subcommand)
               then Inl (NebulaError ''subcommands must have isSubcommand set to true'')
               else
                 (case Command_constructor ad hook x n1 of
                    Inl e \<Rightarrow> Inl e
                  | Inr (stored, n2, evs2) \<Rightarrow>
                      (case map_subcommands ad p rest n2 of
                         Inl e \<Rightarrow> Inl e
                       | Inr (subs, n3, evs3) \<Rightarrow>
                           Inr (stored # subs, n3,
                                New p Subcommand n # evs1 @ New p Subcommand n1 # evs2 @ evs3)))))"
  by pat_completeness auto

termination Command_constructor
proof (relation "measure (\<lambda>a. case a of
          Inl (ad, hook, x, n) \<Rightarrow> Suc (size x)
        | Inr (ad, p, cs, n) \<Rightarrow> size_list size cs)")
  show "wf (measure (\<lambda>a. case a of
          Inl (ad, hook, x, n) \<Rightarrow> Suc (size x)
        | Inr (ad, p, cs, n) \<Rightarrow> size_list size (cs :: constructor list)))"
    by simp
qed (use size_merged_commands in \<open>auto simp: less_Suc_eq_le\<close>)

subsection \<open>The usage gate and the sweep\<close>

text \<open>
  The scope id: \<open>this.options.limit.scope === 'guild' ? this.message.guild.id :
  this.message.author.id\<close>.
\<close>

definition scope_id :: "command_options \<Rightarrow> message \<Rightarrow> string" where
  "scope_id opts msg = (if scope (limit opts) = ''guild'' then guild_id msg else author_id msg)"

text \<open>
  \<open>allowUsage\<close>. \<open>currTime\<close> is what \<open>Date.now()\<close> returns in the call.
  \<open>this.usage.get\<close> is \<open>map_of\<close>; \<open>this.usage.set\<close> is \<open>AList.update\<close>, which
  overwrites the entry of a key in place and puts a new key last, as a \<open>Map\<close> does.
\<close>

definition allowUsage ::
  "command_options \<Rightarrow> message \<Rightarrow> int \<Rightarrow> command_state \<Rightarrow> bool \<times> command_state" where
  "allowUsage opts msg currTime s =
     (if time (limit opts) = 0 then (True, s)
      else
        let id = scope_id opts msg in
        (case map_of (usage s) id of
           Some (b, t) \<Rightarrow>
             if currTime - t > time (limit opts)
             then (True, s\<lparr>usage := AList.update id (1, currTime) (usage s)\<rparr>)
             else if b = bucket (limit opts) then (False, s)
             else (True, s\<lparr>usage := AList.update id (b + 1, currTime) (usage s)\<rparr>)
         | None \<Rightarrow>
             (True,
              s\<lparr>usage := AList.update id (1, currTime) (usage s),
                sweepInterval :=
                  (if sweepInterval s = None then Some (Timeout 30000) else sweepInterval s)\<rparr>)))"

text \<open>
  \<open>_sweep\<close>: \<open>Collection.sweep\<close> removes the entries the predicate holds of;
  \<open>clearInterval\<close> and the assignment of \<open>null\<close> leave \<open>None\<close>.
\<close>

definition sweep :: "command_options \<Rightarrow> int \<Rightarrow> command_state \<Rightarrow> command_state" where
  "sweep opts currTime s =
     (let kept = filter (\<lambda>(k, b, t). \<not> currTime - t > time (limit opts)) (usage s) in
      if length kept = 0 then s\<lparr>usage := kept, sweepInterval := None\<rparr>
      else s\<lparr>usage := kept\<rparr>)"

text \<open>
  \<open>_sweep\<close> is private and runs only as the callback of the interval that
  \<open>allowUsage\<close> sets: when a period of the interval ends, the callback runs if the
  interval has not been cleared, and nothing runs otherwise.
\<close>

definition interval_elapsed :: "command_options \<Rightarrow> int \<Rightarrow> command_state \<Rightarrow> command_state" where
  "interval_elapsed opts currTime s =
     (case sweepInterval s of None \<Rightarrow> s | Some h \<Rightarrow> sweep opts currTime s)"

text \<open>Successive calls of \<open>allowUsage\<close> for one message scope, at the given times.\<close>

fun allowUsages ::
  "command_options \<Rightarrow> message \<Rightarrow> int list \<Rightarrow> command_state \<Rightarrow> bool list \<times> command_state" where
  "allowUsages opts msg [] s = ([], s)"
| "allowUsages opts msg (t # ts) s =
     (let (r, s1) = allowUsage opts msg t s;
          (rs, s2) = allowUsages opts msg ts s1
      in (r # rs, s2))"

text \<open>Any sequence of calls of \<open>allowUsage\<close> and of \<open>_sweep\<close>, each at its own time.\<close>

datatype operation = AllowUsageAt message int | SweepAt int

fun run :: "command_options \<Rightarrow> operation list \<Rightarrow> command_state \<Rightarrow> command_state" where
  "run opts [] s = s"
| "run opts (AllowUsageAt msg t # ops) s = run opts ops (snd (allowUsage opts msg t s))"
| "run opts (SweepAt t # ops) s = run opts ops (sweep opts t s)"

subsection \<open>The inhibitors\<close>

definition allowNSFW :: "command_options \<Rightarrow> message \<Rightarrow> bool" where
  "allowNSFW opts msg = (\<not> nsfw opts \<or> channel_nsfw msg)"

definition allowPerm :: "addon \<Rightarrow> command_options \<Rightarrow> message \<Rightarrow> bool" where
  "allowPerm ad opts msg =
     (let permissionLevel = level (permission opts) in
      if exact (permission opts) then permissions_checkExact ad permissionLevel msg
      else permissions_check ad permissionLevel msg)"

text \<open>
  \<open>composeInhibitors\<close> returns its result, the state it leaves and the methods of
  \<open>this\<close> it invoked, in the order of the invocations. The notification hooks only send a
  message through the transport; their invocation is what is recorded.
\<close>

datatype call =
  CallShouldDispatch | CallAllowUsage | CallAllowNSFW | CallAllowPerm
| CallDidInhibitUsage | CallDidInhibitNSFW | CallDidInhibitPerm

definition composeInhibitors ::
  "addon \<Rightarrow> command_options \<Rightarrow> (message \<Rightarrow> bool) option \<Rightarrow> message \<Rightarrow> int \<Rightarrow> command_state \<Rightarrow>
     bool \<times> command_state \<times> call list" where
  "composeInhibitors ad opts hook msg currTime s =
     (let (should, calls0) =
            (case hook of None \<Rightarrow> (True, []) | Some f \<Rightarrow> (f msg, [CallShouldDispatch]))
      in
      if \<not> should then (False, s, calls0)
      else
        let (allowed, s1) = allowUsage opts msg currTime s;
            calls1 = calls0 @ [CallAllowUsage]
        in
        if \<not> allowed then (False, s1, calls1 @ [CallDidInhibitUsage])
        else
          let calls2 = calls1 @ [CallAllowNSFW] in
          if \<not> allowNSFW opts msg then (False, s1, calls2 @ [CallDidInhibitNSFW])
          else
            let calls3 = calls2 @ [CallAllowPerm] in
            if \<not> allowPerm ad opts msg then (False, s1, calls3 @ [CallDidInhibitPerm])
            else (True, s1, calls3))"

subsection \<open>Commands used as examples\<close>

text \<open>
  A permission service that grants level 0 and nothing above, a message sent outside an
  nsfw channel, and three command classes: one limited to two uses in 5000 ms per user,
  the guild-limited command of the test suite (src/__tests__/commands/GuildLimit.ts), and
  an nsfw command with the same limit.
\<close>

definition test_addon :: addon where
  "test_addon =
     \<lparr>permissions_check = (\<lambda>l m. l \<le> 0), permissions_checkExact = (\<lambda>l m. l = 0)\<rparr>"

definition test_message :: message where
  "test_message = \<lparr>author_id = ''user-1'', guild_id = ''guild-1'', channel_nsfw = False\<rparr>"

definition limited_options :: optional_command_options where
  "limited_options =
     OptionalCommandOptions (Some ''l'') None None None None None
       (Some \<lparr>arg_bucket = Some 2, arg_time = Some 5000, arg_scope = None\<rparr>) None None"

definition GuildLimitCommand :: constructor where
  "GuildLimitCommand =
     CommandSubclass
       (OptionalCommandOptions (Some ''g'') None None None None None
          (Some \<lparr>arg_bucket = None, arg_time = Some 5000, arg_scope = Some ''guild''\<rparr>)
          None None)
       None"

definition nsfw_options :: optional_command_options where
  "nsfw_options =
     OptionalCommandOptions (Some ''n'') None None (Some True) None None
       (Some \<lparr>arg_bucket = Some 2, arg_time = Some 5000, arg_scope = None\<rparr>) None None"

definition fresh_state :: command_state where
  "fresh_state = \<lparr>usage = [], sweepInterval = None\<rparr>"

subsection \<open>What a successful construction fixes\<close>

declare Command_constructor.simps [simp del]

lemma constructed_fields:
  assumes "Command_constructor ad hook x n = Inr (cmd, n', evs)"
  shows "check_options x = None \<and> options cmd = merge defaultOptions x
         \<and> state cmd = \<lparr>usage = [], sweepInterval = None\<rparr> \<and> oid cmd = n
         \<and> addon cmd = ad \<and> shouldDispatch cmd = hook"
  using assms
  by (auto simp: Command_constructor.simps Let_def split: option.splits sum.splits)

lemma checked_bucket_positive:
  "check_options x = None \<Longrightarrow> 0 < bucket (limit (merge defaultOptions x))"
  by (auto simp: check_options_def check_limit_def merge_def merge_limit_def or_default_def
                 defaultOptions_def split: option.splits if_splits)

lemma construct_limited_options:
  "Command_constructor test_addon None limited_options 0 =
     Inr (Command 0 test_addon (merge defaultOptions limited_options) None fresh_state [], 1, [])"
  by (simp add: Command_constructor.simps limited_options_def check_options_def
        check_limit_def check_subcommands_def check_permission_def limitScopes_def merge_def
        merge_subcommands_def or_default_def defaultOptions_def fresh_state_def)

lemma merged_limited_options:
  "limit (merge defaultOptions limited_options) = \<lparr>bucket = 2, time = 5000, scope = ''user''\<rparr>"
  by (simp add: limited_options_def merge_def merge_limit_def or_default_def defaultOptions_def)

lemma merged_nsfw_options:
  "limit (merge defaultOptions nsfw_options) = \<lparr>bucket = 2, time = 5000, scope = ''user''\<rparr>"
  "nsfw (merge defaultOptions nsfw_options) = True"
  by (simp_all add: nsfw_options_def merge_def merge_limit_def or_default_def defaultOptions_def)

subsection \<open>The ledger as a list\<close>

lemma set_update_subset: "set (AList.update k v al) \<subseteq> insert (k, v) (set al)"
  by (induction al) auto

lemma update_absent: "map_of al k = None \<Longrightarrow> AList.update k v al = al @ [(k, v)]"
  by (induction al) (auto split: if_splits)

subsection \<open>One call of the usage gate\<close>

lemma allowUsage_disabled: "time (limit opts) = 0 \<Longrightarrow> allowUsage opts msg now s = (True, s)"
  by (simp add: allowUsage_def)

lemma allowUsage_new_entry:
  assumes "time (limit opts) \<noteq> 0" and "map_of (usage s) (scope_id opts msg) = None"
  shows "allowUsage opts msg now s =
     (True, s\<lparr>usage := usage s @ [(scope_id opts msg, 1, now)],
              sweepInterval :=
                (if sweepInterval s = None then Some (Timeout 30000) else sweepInterval s)\<rparr>)"
  using assms by (simp add: allowUsage_def Let_def update_absent)

lemma allowUsage_elapsed:
  assumes "time (limit opts) \<noteq> 0" and "map_of (usage s) (scope_id opts msg) = Some (b, t)"
    and "now - t > time (limit opts)"
  shows "allowUsage opts msg now s =
     (True, s\<lparr>usage := AList.update (scope_id opts msg) (1, now) (usage s)\<rparr>)"
  using assms by (simp add: allowUsage_def Let_def)

lemma allowUsage_full:
  assumes "time (limit opts) \<noteq> 0"
    and "map_of (usage s) (scope_id opts msg) = Some (bucket (limit opts), t)"
    and "\<not> now - t > time (limit opts)"
  shows "allowUsage opts msg now s = (False, s)"
  using assms by (simp add: allowUsage_def Let_def)

lemma allowUsage_increment:
  assumes "time (limit opts) \<noteq> 0" and "map_of (usage s) (scope_id opts msg) = Some (b, t)"
    and "\<not> now - t > time (limit opts)" and "b \<noteq> bucket (limit opts)"
  shows "allowUsage opts msg now s =
     (True, s\<lparr>usage := AList.update (scope_id opts msg) (b + 1, now) (usage s)\<rparr>)"
  using assms by (simp add: allowUsage_def Let_def)

lemma allowUsage_denied_iff:
  "allowUsage opts msg now s = (False, s') \<longleftrightarrow>
     s' = s \<and> time (limit opts) \<noteq> 0 \<and>
     (\<exists>t. map_of (usage s) (scope_id opts msg) = Some (bucket (limit opts), t)
          \<and> \<not> now - t > time (limit opts))"
  by (auto simp: allowUsage_def Let_def split: option.splits)

lemma allowUsage_entry:
  assumes "time (limit opts) \<noteq> 0" and "allowUsage opts msg now s = (True, s1)"
  shows "map_of (usage s1) (scope_id opts msg) =
     Some (case map_of (usage s) (scope_id opts msg) of
             None \<Rightarrow> (1, now)
           | Some (b, t) \<Rightarrow> if now - t > time (limit opts) then (1, now) else (b + 1, now))"
  using assms
  by (auto simp: allowUsage_def Let_def update_conv' split: option.splits if_splits)

subsection \<open>Successive calls within and after the window\<close>

lemma update_appended: "map_of al k = None \<Longrightarrow> AList.update k v (al @ [(k, w)]) = al @ [(k, v)]"
  by (induction al) (auto split: if_splits)

lemma map_of_appended_usage:
  "map_of (usage s) k = None \<Longrightarrow>
   map_of (usage (s\<lparr>usage := usage s @ [(k, w)], sweepInterval := iv\<rparr>)) k = Some w"
  by (simp add: map_add_def)

lemma three_calls:
  assumes "bucket (limit opts) = 2" and "time (limit opts) = 5000"
    and "map_of (usage s) (scope_id opts msg) = None"
  shows "allowUsages opts msg [0, 1, 2] s =
     ([True, True, False],
      s\<lparr>usage := usage s @ [(scope_id opts msg, 2, 1)],
        sweepInterval :=
          (if sweepInterval s = None then Some (Timeout 30000) else sweepInterval s)\<rparr>)"
proof -
  let ?id = "scope_id opts msg"
  let ?iv = "if sweepInterval s = None then Some (Timeout 30000) else sweepInterval s"
  let ?s1 = "s\<lparr>usage := usage s @ [(?id, 1, 0)], sweepInterval := ?iv\<rparr>"
  let ?s2 = "s\<lparr>usage := usage s @ [(?id, 2, 1)], sweepInterval := ?iv\<rparr>"
  have t: "time (limit opts) \<noteq> 0" using assms by simp
  have 1: "allowUsage opts msg 0 s = (True, ?s1)"
    using allowUsage_new_entry [OF t assms(3), of 0] by simp
  have m1: "map_of (usage ?s1) ?id = Some (1, 0)"
    using assms(3) by (rule map_of_appended_usage)
  have "allowUsage opts msg 1 ?s1 =
      (True, ?s1\<lparr>usage := AList.update ?id (1 + 1, 1) (usage ?s1)\<rparr>)"
    by (rule allowUsage_increment [OF t m1]) (simp_all add: assms)
  then have 2: "allowUsage opts msg 1 ?s1 = (True, ?s2)"
    using assms(3) by (simp add: update_appended)
  have m2: "map_of (usage ?s2) ?id = Some (bucket (limit opts), 1)"
    using assms(1,3) by (simp only: map_of_appended_usage)
  have 3: "allowUsage opts msg 2 ?s2 = (False, ?s2)"
    by (rule allowUsage_full [OF t m2]) (simp add: assms)
  show ?thesis by (simp add: 1 2 3)
qed

lemma allowUsages_append:
  "allowUsages opts msg (ts @ us) s =
     (let (rs, s1) = allowUsages opts msg ts s; (qs, s2) = allowUsages opts msg us s1
      in (rs @ qs, s2))"
  by (induction ts arbitrary: s) (auto simp: Let_def split: prod.splits)

text \<open>
  C1 (as amended). For a command with limit bucket 2 and window 5000 ms and a scope id with
  no entry, successive calls of \<open>allowUsage\<close> at times 0, 1 and 2 return allow, allow,
  deny. The increment on an un-elapsed window takes the entry \<open>(bucket, t)\<close> to
  \<open>(bucket + 1, now)\<close>: the timestamp becomes the time of the call. So a further call
  at time 5001 is still denied (5001 - 1 is not greater than 5000), and a further call at
  time 5002 is allowed and resets the entry to bucket 1.
\<close>

theorem allowUsage_window_restarts_at_each_use:
  "(bucket (limit opts) = 2 \<and> time (limit opts) = 5000
      \<and> map_of (usage s) (scope_id opts msg) = None \<longrightarrow>
      fst (allowUsages opts msg [0, 1, 2] s) = [True, True, False]
      \<and> fst (allowUsages opts msg [0, 1, 2, 5001] s) = [True, True, False, False]
      \<and> fst (allowUsages opts msg [0, 1, 2, 5002] s) = [True, True, False, True]
      \<and> map_of (usage (snd (allowUsages opts msg [0, 1, 2, 5002] s))) (scope_id opts msg)
          = Some (1, 5002))
   \<and> (time (limit opts) \<noteq> 0 \<and> map_of (usage s) (scope_id opts msg) = Some (b, t)
      \<and> \<not> now - t > time (limit opts) \<and> b \<noteq> bucket (limit opts) \<longrightarrow>
      allowUsage opts msg now s =
        (True, s\<lparr>usage := AList.update (scope_id opts msg) (b + 1, now) (usage s)\<rparr>))"
proof (intro conjI impI)
  assume a: "bucket (limit opts) = 2 \<and> time (limit opts) = 5000
      \<and> map_of (usage s) (scope_id opts msg) = None"
  let ?id = "scope_id opts msg"
  let ?s3 = "s\<lparr>usage := usage s @ [(?id, 2, 1)],
        sweepInterval :=
          (if sweepInterval s = None then Some (Timeout 30000) else sweepInterval s)\<rparr>"
  have three: "allowUsages opts msg [0, 1, 2] s = ([True, True, False], ?s3)"
    using a by (simp only: three_calls)
  have t: "time (limit opts) \<noteq> 0" using a by simp
  have m: "map_of (usage ?s3) ?id = Some (bucket (limit opts), 1)"
    using a by (simp only: map_of_appended_usage)
  have late: "allowUsage opts msg 5001 ?s3 = (False, ?s3)"
    by (rule allowUsage_full [OF t m]) (simp add: a)
  have m': "map_of (usage ?s3) ?id = Some (2, 1)"
    using a by (simp only: map_of_appended_usage)
  have later: "allowUsage opts msg 5002 ?s3 =
      (True, ?s3\<lparr>usage := AList.update ?id (1, 5002) (usage ?s3)\<rparr>)"
    by (rule allowUsage_elapsed [OF t m']) (simp add: a)
  show "fst (allowUsages opts msg [0, 1, 2] s) = [True, True, False]"
    by (simp only: three fst_conv)
  have "allowUsages opts msg ([0, 1, 2] @ [5001]) s = ([True, True, False, False], ?s3)"
    by (simp only: allowUsages_append three) (simp add: late)
  then show "fst (allowUsages opts msg [0, 1, 2, 5001] s) = [True, True, False, False]"
    by simp
  have 4: "allowUsages opts msg ([0, 1, 2] @ [5002]) s =
      ([True, True, False, True], ?s3\<lparr>usage := AList.update ?id (1, 5002) (usage ?s3)\<rparr>)"
    by (simp only: allowUsages_append three) (simp add: later)
  then show "fst (allowUsages opts msg [0, 1, 2, 5002] s) = [True, True, False, True]"
    by simp
  from 4 show "map_of (usage (snd (allowUsages opts msg [0, 1, 2, 5002] s))) ?id = Some (1, 5002)"
    by (simp add: update_conv')
next
  assume "time (limit opts) \<noteq> 0 \<and> map_of (usage s) (scope_id opts msg) = Some (b, t)
      \<and> \<not> now - t > time (limit opts) \<and> b \<noteq> bucket (limit opts)"
  then show "allowUsage opts msg now s =
        (True, s\<lparr>usage := AList.update (scope_id opts msg) (b + 1, now) (usage s)\<rparr>)"
    by (simp add: allowUsage_increment)
qed

theorem allowUsage_window_restarts_at_each_use_witness:
  "bucket (limit (merge defaultOptions limited_options)) = 2
   \<and> time (limit (merge defaultOptions limited_options)) = 5000
   \<and> map_of (usage fresh_state) (scope_id (merge defaultOptions limited_options) test_message) = None
   \<and> fst (allowUsages (merge defaultOptions limited_options) test_message [0, 1, 2] fresh_state)
       = [True, True, False]
   \<and> fst (allowUsages (merge defaultOptions limited_options) test_message [0, 1, 2, 5001]
          fresh_state) = [True, True, False, False]
   \<and> fst (allowUsages (merge defaultOptions limited_options) test_message [0, 1, 2, 5002]
          fresh_state) = [True, True, False, True]
   \<and> map_of [(''user-1'', 1 :: rat, 0 :: int)] ''user-1'' = Some (1, 0)
   \<and> allowUsage (merge defaultOptions limited_options) test_message 1
        \<lparr>usage = [(''user-1'', 1, 0)], sweepInterval = Some (Timeout 30000)\<rparr>
       = (True, \<lparr>usage = [(''user-1'', 2, 1)], sweepInterval = Some (Timeout 30000)\<rparr>)"
proof -
  let ?opts = "merge defaultOptions limited_options"
  have h: "bucket (limit ?opts) = 2 \<and> time (limit ?opts) = 5000
      \<and> map_of (usage fresh_state) (scope_id ?opts test_message) = None"
    by (simp add: merged_limited_options fresh_state_def)
  have id: "scope_id ?opts test_message = ''user-1''"
    by (simp add: scope_id_def merged_limited_options test_message_def)
  have g: "time (limit ?opts) \<noteq> 0
      \<and> map_of (usage \<lparr>usage = [(''user-1'', 1, 0)], sweepInterval = Some (Timeout 30000)\<rparr>)
            (scope_id ?opts test_message) = Some (1, 0)
      \<and> \<not> 1 - 0 > time (limit ?opts) \<and> 1 \<noteq> bucket (limit ?opts)"
    by (simp add: merged_limited_options id)
  from allowUsage_window_restarts_at_each_use [of ?opts fresh_state test_message 1 0 1] h
  have first: "fst (allowUsages ?opts test_message [0, 1, 2] fresh_state) = [True, True, False]
      \<and> fst (allowUsages ?opts test_message [0, 1, 2, 5001] fresh_state)
          = [True, True, False, False]
      \<and> fst (allowUsages ?opts test_message [0, 1, 2, 5002] fresh_state)
          = [True, True, False, True]"
    by blast
  from allowUsage_window_restarts_at_each_use
         [of ?opts "\<lparr>usage = [(''user-1'', 1, 0)], sweepInterval = Some (Timeout 30000)\<rparr>"
             test_message 1 0 1] g
  have second: "allowUsage ?opts test_message 1
        \<lparr>usage = [(''user-1'', 1, 0)], sweepInterval = Some (Timeout 30000)\<rparr>
       = (True, \<lparr>usage = [(''user-1'', 2, 1)], sweepInterval = Some (Timeout 30000)\<rparr>)"
    by (simp add: id)
  from h first second show ?thesis by simp
qed

text \<open>
  The claim as first stated fails on the command of the example: the fourth call, at time
  5001, is denied, and the increment at time 1 leaves the timestamp 1, not 0.
\<close>

theorem allowUsage_at_5001_counterexample:
  "fst (allowUsages (merge defaultOptions limited_options) test_message [0, 1, 2, 5001]
          fresh_state) = [True, True, False, False]
   \<and> snd (allowUsage (merge defaultOptions limited_options) test_message 1
        \<lparr>usage = [(''user-1'', 1, 0)], sweepInterval = Some (Timeout 30000)\<rparr>)
       = \<lparr>usage = [(''user-1'', 2, 1)], sweepInterval = Some (Timeout 30000)\<rparr>"
  by (simp add: allowUsage_def scope_id_def merged_limited_options test_message_def
        fresh_state_def Let_def)


subsection \<open>Invariants of the ledger and of the sweep interval\<close>

text \<open>
  The invariant of the ledger when the limit bucket is a whole number: every bucket is a
  whole number between 1 and the limit bucket.
\<close>

definition buckets_within :: "command_options \<Rightarrow> command_state \<Rightarrow> bool" where
  "buckets_within opts s =
     (\<forall>(k, b, t) \<in> set (usage s). b \<in> \<int> \<and> 1 \<le> b \<and> b \<le> bucket (limit opts))"

text \<open>
  Three calls by one user and a sweep, and a command whose limit bucket is 2.5, which the
  constructor accepts.
\<close>

definition three_calls_and_sweep :: "operation list" where
  "three_calls_and_sweep =
     [AllowUsageAt test_message 0, AllowUsageAt test_message 1, AllowUsageAt test_message 2,
      SweepAt 3]"

definition fractional_options :: optional_command_options where
  "fractional_options =
     OptionalCommandOptions (Some ''f'') None None None None None
       (Some \<lparr>arg_bucket = Some (5 / 2), arg_time = Some 5000, arg_scope = None\<rparr>) None None"

lemma next_whole:
  fixes b m :: rat
  assumes "b \<in> \<int>" and "m \<in> \<int>" and "b \<le> m" and "b \<noteq> m"
  shows "b + 1 \<le> m"
proof -
  from assms(1) obtain i where i: "b = of_int i" by (rule Ints_cases)
  from assms(2) obtain j where j: "m = of_int j" by (rule Ints_cases)
  from assms(3,4) i j have "i < j" by simp
  then have "i + 1 \<le> j" by simp
  then have "(of_int (i + 1) :: rat) \<le> of_int j" by (simp only: of_int_le_iff)
  with i j show ?thesis by simp
qed

lemma whole_positive:
  fixes m :: rat
  assumes "m \<in> \<int>" and "0 < m"
  shows "1 \<le> m"
proof -
  from assms(1) obtain j where j: "m = of_int j" by (rule Ints_cases)
  with assms(2) have "0 < j" by simp
  then have "1 \<le> j" by simp
  then have "(of_int 1 :: rat) \<le> of_int j" by (simp only: of_int_le_iff)
  with j show ?thesis by simp
qed

lemma buckets_within_update:
  "buckets_within opts s \<Longrightarrow> b \<in> \<int> \<Longrightarrow> 1 \<le> b \<Longrightarrow> b \<le> bucket (limit opts) \<Longrightarrow>
   buckets_within opts (s\<lparr>usage := AList.update k (b, t) (usage s)\<rparr>)"
  using set_update_subset [of k "(b, t)" "usage s"]
  by (auto simp: buckets_within_def)

lemma buckets_within_allowUsage:
  assumes "buckets_within opts s" and "bucket (limit opts) \<in> \<int>"
    and "1 \<le> bucket (limit opts)"
  shows "buckets_within opts (snd (allowUsage opts msg now s))"
proof (cases "map_of (usage s) (scope_id opts msg)")
  case None
  have "buckets_within opts (s\<lparr>usage := AList.update (scope_id opts msg) (1, now) (usage s)\<rparr>)"
    using assms(1,3) by (intro buckets_within_update) simp_all
  with None assms(1) show ?thesis
    by (auto simp: allowUsage_def Let_def buckets_within_def)
next
  case (Some e)
  obtain b t where e: "e = (b, t)" by (cases e)
  from Some e have "(scope_id opts msg, b, t) \<in> set (usage s)"
    by (auto dest: map_of_SomeD)
  with assms(1) have b: "b \<in> \<int>" "1 \<le> b" "b \<le> bucket (limit opts)"
    by (auto simp: buckets_within_def)
  have reset: "buckets_within opts
      (s\<lparr>usage := AList.update (scope_id opts msg) (1, now) (usage s)\<rparr>)"
    using assms(1,3) by (intro buckets_within_update) simp_all
  have "b \<noteq> bucket (limit opts) \<Longrightarrow> buckets_within opts
      (s\<lparr>usage := AList.update (scope_id opts msg) (b + 1, now) (usage s)\<rparr>)"
  proof -
    assume "b \<noteq> bucket (limit opts)"
    with b assms(2) have "b + 1 \<le> bucket (limit opts)" by (intro next_whole)
    with b assms(1) show ?thesis by (intro buckets_within_update) simp_all
  qed
  with reset assms(1) Some e show ?thesis
    by (auto simp: allowUsage_def Let_def)
qed

lemma buckets_within_sweep: "buckets_within opts s \<Longrightarrow> buckets_within opts (sweep opts now s)"
  by (auto simp: sweep_def buckets_within_def Let_def)

lemma buckets_within_run:
  "buckets_within opts s \<Longrightarrow> bucket (limit opts) \<in> \<int> \<Longrightarrow> 1 \<le> bucket (limit opts) \<Longrightarrow>
   buckets_within opts (run opts ops s)"
proof (induction ops arbitrary: s)
  case Nil
  then show ?case by simp
next
  case (Cons op ops)
  then show ?case
    by (cases op) (simp_all add: buckets_within_allowUsage buckets_within_sweep)
qed

text \<open>
  C8 (as amended). For every command that the constructor returns with a limit bucket
  that is a whole number, and every sequence of calls of \<open>allowUsage\<close> and \<open>_sweep\<close>,
  each at any time and for any message, every entry of the usage ledger has a bucket
  between 1 and the configured limit bucket, inclusive. A call that is denied leaves the
  state, the ledger included, as it was, and is denied because the entry of the scope
  holds the full bucket within the window.
\<close>

theorem usage_buckets_bounded:
  assumes "Command_constructor ad hook x n = Inr (cmd, n', evs)"
    and "bucket (limit (options cmd)) \<in> \<int>"
  shows "(\<forall>(k, b, t) \<in> set (usage (run (options cmd) ops (state cmd))).
            1 \<le> b \<and> b \<le> bucket (limit (options cmd)))
         \<and> (\<forall>msg now s s'. allowUsage (options cmd) msg now s = (False, s') \<longrightarrow>
               s' = s \<and> (\<exists>t. map_of (usage s) (scope_id (options cmd) msg)
                               = Some (bucket (limit (options cmd)), t)
                             \<and> \<not> now - t > time (limit (options cmd))))"
proof -
  from constructed_fields [OF assms(1)]
  have c: "check_options x = None" "options cmd = merge defaultOptions x"
      "state cmd = \<lparr>usage = [], sweepInterval = None\<rparr>"
    by simp_all
  have "buckets_within (options cmd) (state cmd)"
    by (simp add: c buckets_within_def)
  moreover note assms(2)
  moreover have "1 \<le> bucket (limit (options cmd))"
  proof (rule whole_positive [OF assms(2)])
    from c(1) have "0 < bucket (limit (merge defaultOptions x))"
      by (rule checked_bucket_positive)
    then show "0 < bucket (limit (options cmd))" by (simp only: c(2))
  qed
  ultimately have "buckets_within (options cmd) (run (options cmd) ops (state cmd))"
    by (rule buckets_within_run)
  then have "\<forall>(k, b, t) \<in> set (usage (run (options cmd) ops (state cmd))).
            1 \<le> b \<and> b \<le> bucket (limit (options cmd))"
    by (auto simp: buckets_within_def)
  then show ?thesis
    by (simp add: allowUsage_denied_iff)
qed

lemma run_three_calls_and_sweep:
  "run (merge defaultOptions limited_options) three_calls_and_sweep fresh_state =
     \<lparr>usage = [(''user-1'', 2, 1)], sweepInterval = Some (Timeout 30000)\<rparr>"
  by (simp add: three_calls_and_sweep_def allowUsage_def sweep_def scope_id_def
        merged_limited_options test_message_def fresh_state_def Let_def)

theorem usage_buckets_bounded_witness:
  "Command_constructor test_addon None limited_options 0 =
     Inr (Command 0 test_addon (merge defaultOptions limited_options) None fresh_state [], 1, [])
   \<and> bucket (limit (merge defaultOptions limited_options)) \<in> \<int>
   \<and> usage (run (merge defaultOptions limited_options) three_calls_and_sweep fresh_state)
       = [(''user-1'', 2, 1)]
   \<and> (1 :: rat) \<le> 2 \<and> 2 \<le> bucket (limit (merge defaultOptions limited_options))
   \<and> allowUsage (merge defaultOptions limited_options) test_message 2
        \<lparr>usage = [(''user-1'', 2, 1)], sweepInterval = Some (Timeout 30000)\<rparr>
       = (False, \<lparr>usage = [(''user-1'', 2, 1)], sweepInterval = Some (Timeout 30000)\<rparr>)
   \<and> map_of [(''user-1'', 2 :: rat, 1 :: int)] ''user-1'' = Some (2, 1)"
proof -
  let ?opts = "merge defaultOptions limited_options"
  let ?cmd = "Command 0 test_addon ?opts None fresh_state []"
  let ?full = "\<lparr>usage = [(''user-1'', 2, 1)], sweepInterval = Some (Timeout 30000)\<rparr>"
  note c = construct_limited_options
  have w: "bucket (limit ?opts) \<in> \<int>"
    by (simp add: merged_limited_options)
  then have w': "bucket (limit (options ?cmd)) \<in> \<int>"
    by simp
  have d: "allowUsage ?opts test_message 2 ?full = (False, ?full)"
    by (simp add: allowUsage_def scope_id_def merged_limited_options test_message_def)
  from usage_buckets_bounded [OF c w', of three_calls_and_sweep]
  have "(\<forall>(k, b, t) \<in> set (usage (run ?opts three_calls_and_sweep fresh_state)).
            1 \<le> b \<and> b \<le> bucket (limit ?opts))"
    by simp
  then have "(1 :: rat) \<le> 2 \<and> 2 \<le> bucket (limit ?opts)"
    by (simp add: run_three_calls_and_sweep)
  with c w d show ?thesis
    by (simp add: run_three_calls_and_sweep)
qed

text \<open>
  The claim C8 as first stated fails for a limit bucket that is not a whole number. The
  constructor accepts the limit bucket 2.5; the gate denies only a bucket equal to it, so
  the three calls are all allowed and leave the bucket 3, above the limit bucket.
\<close>

theorem usage_bucket_above_fractional_max_counterexample:
  "Command_constructor test_addon None fractional_options 0 =
     Inr (Command 0 test_addon (merge defaultOptions fractional_options) None fresh_state [], 1,
          [])
   \<and> bucket (limit (merge defaultOptions fractional_options)) = 5 / 2
   \<and> usage (run (merge defaultOptions fractional_options) three_calls_and_sweep fresh_state)
       = [(''user-1'', 3, 2)]
   \<and> \<not> (3 :: rat) \<le> 5 / 2"
proof -
  have l: "limit (merge defaultOptions fractional_options)
      = \<lparr>bucket = 5 / 2, time = 5000, scope = ''user''\<rparr>"
    by (simp add: fractional_options_def merge_def merge_limit_def or_default_def
          defaultOptions_def)
  have c: "Command_constructor test_addon None fractional_options 0 =
     Inr (Command 0 test_addon (merge defaultOptions fractional_options) None fresh_state [], 1,
          [])"
    by (simp add: Command_constructor.simps fractional_options_def check_options_def
        check_limit_def check_subcommands_def check_permission_def limitScopes_def merge_def
        merge_subcommands_def or_default_def defaultOptions_def fresh_state_def)
  have r: "usage (run (merge defaultOptions fractional_options) three_calls_and_sweep
      fresh_state) = [(''user-1'', 3, 2)]"
    by (simp add: three_calls_and_sweep_def allowUsage_def sweep_def scope_id_def l
        test_message_def fresh_state_def Let_def)
  from c l r show ?thesis by simp
qed

definition timer_matches :: "command_state \<Rightarrow> bool" where
  "timer_matches s = (sweepInterval s = None \<longleftrightarrow> usage s = [])"

lemma timer_matches_allowUsage:
  "timer_matches s \<Longrightarrow> timer_matches (snd (allowUsage opts msg now s))"
  by (auto simp: timer_matches_def allowUsage_def Let_def split: option.splits)

lemma timer_matches_sweep: "timer_matches s \<Longrightarrow> timer_matches (sweep opts now s)"
  by (auto simp: timer_matches_def sweep_def Let_def)

lemma timer_matches_run: "timer_matches s \<Longrightarrow> timer_matches (run opts ops s)"
proof (induction ops arbitrary: s)
  case Nil
  then show ?case by simp
next
  case (Cons op ops)
  then show ?case
    by (cases op) (simp_all add: timer_matches_allowUsage timer_matches_sweep)
qed

lemma usage_sweep:
  "usage (sweep opts now s) = filter (\<lambda>(k, b, t). \<not> now - t > time (limit opts)) (usage s)"
  by (simp add: sweep_def Let_def)

lemma sweepInterval_sweep:
  "sweepInterval (sweep opts now s) = (if usage (sweep opts now s) = [] then None else sweepInterval s)"
  by (simp add: sweep_def Let_def)


text \<open>
  C9. A sweep keeps exactly the entries whose age does not exceed the limit window and
  removes the others. When it leaves the ledger empty it clears the interval, and a
  cleared interval runs no further sweep; when entries remain the interval stays as it
  was. A call of \<open>allowUsage\<close> that creates an entry while no interval is set starts
  one, with a period of 30000 ms. In every state a command reaches from its construction,
  the interval is set exactly when the ledger is not empty.
\<close>

theorem sweep_removes_expired_and_stops_interval:
  assumes "Command_constructor ad hook x n = Inr (cmd, n', evs)"
  shows "usage (sweep (options cmd) now s)
           = filter (\<lambda>(k, b, t). \<not> now - t > time (limit (options cmd))) (usage s)
     \<and> (usage (sweep (options cmd) now s) = [] \<longrightarrow>
          sweepInterval (sweep (options cmd) now s) = None
          \<and> interval_elapsed (options cmd) later (sweep (options cmd) now s)
              = sweep (options cmd) now s)
     \<and> (usage (sweep (options cmd) now s) \<noteq> [] \<longrightarrow>
          sweepInterval (sweep (options cmd) now s) = sweepInterval s)
     \<and> (time (limit (options cmd)) \<noteq> 0 \<and> map_of (usage s) (scope_id (options cmd) msg) = None
          \<and> sweepInterval s = None \<longrightarrow>
          sweepInterval (snd (allowUsage (options cmd) msg now s)) = Some (Timeout 30000))
     \<and> (sweepInterval (run (options cmd) ops (state cmd)) = None
          \<longleftrightarrow> usage (run (options cmd) ops (state cmd)) = [])"
proof -
  from constructed_fields [OF assms]
  have "state cmd = \<lparr>usage = [], sweepInterval = None\<rparr>"
    by simp
  then have "timer_matches (state cmd)"
    by (simp add: timer_matches_def)
  then have "timer_matches (run (options cmd) ops (state cmd))"
    by (rule timer_matches_run)
  then have reach: "sweepInterval (run (options cmd) ops (state cmd)) = None
          \<longleftrightarrow> usage (run (options cmd) ops (state cmd)) = []"
    by (simp add: timer_matches_def)
  have stop: "usage (sweep (options cmd) now s) = [] \<longrightarrow>
          sweepInterval (sweep (options cmd) now s) = None
          \<and> interval_elapsed (options cmd) later (sweep (options cmd) now s)
              = sweep (options cmd) now s"
    by (simp add: sweepInterval_sweep interval_elapsed_def)
  have start: "time (limit (options cmd)) \<noteq> 0
          \<and> map_of (usage s) (scope_id (options cmd) msg) = None
          \<and> sweepInterval s = None \<longrightarrow>
          sweepInterval (snd (allowUsage (options cmd) msg now s)) = Some (Timeout 30000)"
    by (simp add: allowUsage_new_entry)
  from reach stop start show ?thesis
    by (simp add: usage_sweep sweepInterval_sweep)
qed

definition call_then_late_sweep :: "operation list" where
  "call_then_late_sweep = [AllowUsageAt test_message 0, SweepAt 30000]"

theorem sweep_removes_expired_and_stops_interval_witness:
  "Command_constructor test_addon None limited_options 0 =
     Inr (Command 0 test_addon (merge defaultOptions limited_options) None fresh_state [], 1, [])
   \<and> usage (sweep (merge defaultOptions limited_options) 30000
        \<lparr>usage = [(''user-1'', 1, 0)], sweepInterval = Some (Timeout 30000)\<rparr>) = []
   \<and> sweepInterval (sweep (merge defaultOptions limited_options) 30000
        \<lparr>usage = [(''user-1'', 1, 0)], sweepInterval = Some (Timeout 30000)\<rparr>) = None
   \<and> interval_elapsed (merge defaultOptions limited_options) 60000
        (sweep (merge defaultOptions limited_options) 30000
           \<lparr>usage = [(''user-1'', 1, 0)], sweepInterval = Some (Timeout 30000)\<rparr>)
       = sweep (merge defaultOptions limited_options) 30000
           \<lparr>usage = [(''user-1'', 1, 0)], sweepInterval = Some (Timeout 30000)\<rparr>
   \<and> time (limit (merge defaultOptions limited_options)) \<noteq> 0
   \<and> map_of (usage fresh_state) (scope_id (merge defaultOptions limited_options) test_message)
       = None
   \<and> sweepInterval fresh_state = None
   \<and> sweepInterval (snd (allowUsage (merge defaultOptions limited_options) test_message 70000
        fresh_state)) = Some (Timeout 30000)
   \<and> usage (run (merge defaultOptions limited_options) call_then_late_sweep fresh_state) = []
   \<and> sweepInterval (run (merge defaultOptions limited_options) call_then_late_sweep fresh_state)
       = None"
proof -
  let ?opts = "merge defaultOptions limited_options"
  let ?one = "\<lparr>usage = [(''user-1'', 1, 0)], sweepInterval = Some (Timeout 30000)\<rparr>"
  let ?cmd = "Command 0 test_addon ?opts None fresh_state []"
  note c = construct_limited_options
  have sel: "options ?cmd = ?opts" "state ?cmd = fresh_state"
    by simp_all
  note late = sweep_removes_expired_and_stops_interval
      [OF c, of 30000 ?one 60000 test_message call_then_late_sweep, unfolded sel]
  note again = sweep_removes_expired_and_stops_interval
      [OF c, of 70000 fresh_state 60000 test_message call_then_late_sweep, unfolded sel]
  have empty: "usage (sweep ?opts 30000 ?one) = []"
    by (simp add: sweep_def merged_limited_options)
  have stopped: "sweepInterval (sweep ?opts 30000 ?one) = None
      \<and> interval_elapsed ?opts 60000 (sweep ?opts 30000 ?one) = sweep ?opts 30000 ?one"
    using late empty by blast
  have new: "time (limit ?opts) \<noteq> 0
      \<and> map_of (usage fresh_state) (scope_id ?opts test_message) = None
      \<and> sweepInterval fresh_state = None"
    by (simp add: merged_limited_options fresh_state_def)
  have started: "sweepInterval (snd (allowUsage ?opts test_message 70000 fresh_state))
      = Some (Timeout 30000)"
    using again new by blast
  have ran: "usage (run ?opts call_then_late_sweep fresh_state) = []"
    by (simp add: call_then_late_sweep_def allowUsage_def sweep_def scope_id_def
        merged_limited_options test_message_def fresh_state_def Let_def)
  have cancelled: "sweepInterval (run ?opts call_then_late_sweep fresh_state) = None"
    using late ran by blast
  from c empty stopped new started ran cancelled show ?thesis
    by blast
qed


subsection \<open>The usage gate inside the inhibitors\<close>

lemma composeInhibitors_after_usage:
  assumes "case hook of None \<Rightarrow> True | Some f \<Rightarrow> f msg"
    and "allowUsage opts msg now s = (True, s1)"
  shows "fst (snd (composeInhibitors ad opts hook msg now s)) = s1"
  using assms
  by (cases hook) (simp_all add: composeInhibitors_def Let_def)

text \<open>
  C10. When the hook \<open>shouldDispatch\<close> lets the invocation through (or is not defined),
  the usage gate allows it and the nsfw gate or the permission gate then fails,
  \<open>composeInhibitors\<close> returns false and leaves the state that \<open>allowUsage\<close> wrote:
  with limiting enabled, the entry of the scope is the new entry, the reset entry or the
  incremented entry, so the blocked invocation has consumed one use.
\<close>

theorem blocked_after_usage_gate_keeps_the_use:
  assumes "case hook of None \<Rightarrow> True | Some f \<Rightarrow> f msg"
    and "allowUsage opts msg now s = (True, s1)"
    and "\<not> allowNSFW opts msg \<or> \<not> allowPerm ad opts msg"
  shows "fst (composeInhibitors ad opts hook msg now s) = False
     \<and> fst (snd (composeInhibitors ad opts hook msg now s)) = s1
     \<and> (time (limit opts) \<noteq> 0 \<longrightarrow>
          map_of (usage s1) (scope_id opts msg) =
            Some (case map_of (usage s) (scope_id opts msg) of
                    None \<Rightarrow> (1, now)
                  | Some (b, t) \<Rightarrow>
                      if now - t > time (limit opts) then (1, now) else (b + 1, now)))"
proof -
  have blocked: "fst (composeInhibitors ad opts hook msg now s) = False"
    using assms by (cases hook) (auto simp: composeInhibitors_def Let_def)
  have kept: "fst (snd (composeInhibitors ad opts hook msg now s)) = s1"
    using assms(1,2) by (rule composeInhibitors_after_usage)
  have used: "time (limit opts) \<noteq> 0 \<longrightarrow>
          map_of (usage s1) (scope_id opts msg) =
            Some (case map_of (usage s) (scope_id opts msg) of
                    None \<Rightarrow> (1, now)
                  | Some (b, t) \<Rightarrow>
                      if now - t > time (limit opts) then (1, now) else (b + 1, now))"
    using assms(2) by (simp add: allowUsage_entry)
  from blocked kept used show ?thesis by blast
qed

theorem blocked_after_usage_gate_keeps_the_use_witness:
  "allowUsage (merge defaultOptions nsfw_options) test_message 7 fresh_state =
     (True, \<lparr>usage = [(''user-1'', 1, 7)], sweepInterval = Some (Timeout 30000)\<rparr>)
   \<and> \<not> allowNSFW (merge defaultOptions nsfw_options) test_message
   \<and> fst (composeInhibitors test_addon (merge defaultOptions nsfw_options) None test_message 7
          fresh_state) = False
   \<and> fst (snd (composeInhibitors test_addon (merge defaultOptions nsfw_options) None
          test_message 7 fresh_state))
       = \<lparr>usage = [(''user-1'', 1, 7)], sweepInterval = Some (Timeout 30000)\<rparr>"
proof -
  let ?opts = "merge defaultOptions nsfw_options"
  let ?s1 = "\<lparr>usage = [(''user-1'', 1, 7)], sweepInterval = Some (Timeout 30000)\<rparr>"
  have h: "case (None :: (message \<Rightarrow> bool) option) of None \<Rightarrow> True | Some f \<Rightarrow> f test_message"
    by simp
  have u: "allowUsage ?opts test_message 7 fresh_state = (True, ?s1)"
    by (simp add: allowUsage_def scope_id_def merged_nsfw_options test_message_def
        fresh_state_def Let_def)
  have n: "\<not> allowNSFW ?opts test_message"
    by (simp add: allowNSFW_def merged_nsfw_options test_message_def)
  then have g: "\<not> allowNSFW ?opts test_message \<or> \<not> allowPerm test_addon ?opts test_message"
    by (rule disjI1)
  note t = blocked_after_usage_gate_keeps_the_use [OF h u g]
  from u n t show ?thesis by blast
qed

subsection \<open>The order of the gates\<close>

text \<open>
  The order the specification fixes: the hook \<open>shouldDispatch\<close> when the command defines
  it, then the usage gate, the nsfw gate and the permission gate; the notification hook of
  each gate (the hook \<open>shouldDispatch\<close> has none); and what each gate answers in the state
  \<open>composeInhibitors\<close> starts from. \<open>stops_at\<close> says that the calls are the gates up
  to gate \<open>k\<close>, which fails while all before it pass, followed by its notification hook.
\<close>

definition gate_order :: "(message \<Rightarrow> bool) option \<Rightarrow> call list" where
  "gate_order hook =
     (case hook of None \<Rightarrow> [] | Some f \<Rightarrow> [CallShouldDispatch])
     @ [CallAllowUsage, CallAllowNSFW, CallAllowPerm]"

fun notification_hook :: "call \<Rightarrow> call list" where
  "notification_hook CallAllowUsage = [CallDidInhibitUsage]"
| "notification_hook CallAllowNSFW = [CallDidInhibitNSFW]"
| "notification_hook CallAllowPerm = [CallDidInhibitPerm]"
| "notification_hook c = []"

fun gate_passes ::
  "addon \<Rightarrow> command_options \<Rightarrow> (message \<Rightarrow> bool) option \<Rightarrow> message \<Rightarrow> int \<Rightarrow> command_state \<Rightarrow>
     call \<Rightarrow> bool" where
  "gate_passes ad opts hook msg now s CallShouldDispatch =
     (case hook of None \<Rightarrow> True | Some f \<Rightarrow> f msg)"
| "gate_passes ad opts hook msg now s CallAllowUsage = fst (allowUsage opts msg now s)"
| "gate_passes ad opts hook msg now s CallAllowNSFW = allowNSFW opts msg"
| "gate_passes ad opts hook msg now s CallAllowPerm = allowPerm ad opts msg"
| "gate_passes ad opts hook msg now s c = True"

definition stops_at ::
  "addon \<Rightarrow> command_options \<Rightarrow> (message \<Rightarrow> bool) option \<Rightarrow> message \<Rightarrow> int \<Rightarrow> command_state \<Rightarrow>
     call list \<Rightarrow> nat \<Rightarrow> bool" where
  "stops_at ad opts hook msg now s calls k =
     (k < length (gate_order hook)
      \<and> calls = take (Suc k) (gate_order hook) @ notification_hook (gate_order hook ! k)
      \<and> \<not> gate_passes ad opts hook msg now s (gate_order hook ! k)
      \<and> (\<forall>j < k. gate_passes ad opts hook msg now s (gate_order hook ! j)))"

lemma composeInhibitors_no_hook:
  "composeInhibitors ad opts None msg now s =
     (if \<not> fst (allowUsage opts msg now s)
      then (False, snd (allowUsage opts msg now s), [CallAllowUsage, CallDidInhibitUsage])
      else if \<not> allowNSFW opts msg
      then (False, snd (allowUsage opts msg now s),
            [CallAllowUsage, CallAllowNSFW, CallDidInhibitNSFW])
      else if \<not> allowPerm ad opts msg
      then (False, snd (allowUsage opts msg now s),
            [CallAllowUsage, CallAllowNSFW, CallAllowPerm, CallDidInhibitPerm])
      else (True, snd (allowUsage opts msg now s),
            [CallAllowUsage, CallAllowNSFW, CallAllowPerm]))"
  by (simp add: composeInhibitors_def Let_def split: prod.splits)

lemma composeInhibitors_hook:
  "composeInhibitors ad opts (Some f) msg now s =
     (if \<not> f msg then (False, s, [CallShouldDispatch])
      else if \<not> fst (allowUsage opts msg now s)
      then (False, snd (allowUsage opts msg now s),
            [CallShouldDispatch, CallAllowUsage, CallDidInhibitUsage])
      else if \<not> allowNSFW opts msg
      then (False, snd (allowUsage opts msg now s),
            [CallShouldDispatch, CallAllowUsage, CallAllowNSFW, CallDidInhibitNSFW])
      else if \<not> allowPerm ad opts msg
      then (False, snd (allowUsage opts msg now s),
            [CallShouldDispatch, CallAllowUsage, CallAllowNSFW, CallAllowPerm,
             CallDidInhibitPerm])
      else (True, snd (allowUsage opts msg now s),
            [CallShouldDispatch, CallAllowUsage, CallAllowNSFW, CallAllowPerm]))"
  by (simp add: composeInhibitors_def Let_def split: prod.splits)

lemma all_less_1: "(\<forall>j < Suc 0. P j) \<longleftrightarrow> P 0"
  by simp

lemma all_less_2: "(\<forall>j < Suc (Suc 0). P j) \<longleftrightarrow> P 0 \<and> P (Suc 0)"
  by (auto simp: less_Suc_eq)

lemma all_less_3: "(\<forall>j < Suc (Suc (Suc 0)). P j) \<longleftrightarrow> P 0 \<and> P (Suc 0) \<and> P (Suc (Suc 0))"
  by (auto simp: less_Suc_eq)

lemma stops_no_hook:
  assumes "composeInhibitors ad opts None msg now s = (False, s', calls)"
  shows "\<exists>k. stops_at ad opts None msg now s calls k"
proof -
  consider (u) "\<not> fst (allowUsage opts msg now s)"
    | (n) "fst (allowUsage opts msg now s)" "\<not> allowNSFW opts msg"
    | (p) "fst (allowUsage opts msg now s)" "allowNSFW opts msg" "\<not> allowPerm ad opts msg"
    using assms by (auto simp: composeInhibitors_no_hook split: if_splits)
  then show ?thesis
  proof cases
    case u
    with assms have "stops_at ad opts None msg now s calls 0"
      by (auto simp: composeInhibitors_no_hook stops_at_def gate_order_def)
    then show ?thesis ..
  next
    case n
    with assms have "stops_at ad opts None msg now s calls (Suc 0)"
      by (auto simp: composeInhibitors_no_hook stops_at_def gate_order_def)
    then show ?thesis ..
  next
    case p
    with assms have "stops_at ad opts None msg now s calls (Suc (Suc 0))"
      by (auto simp: composeInhibitors_no_hook stops_at_def gate_order_def all_less_2)
    then show ?thesis ..
  qed
qed

lemma stops_hook:
  assumes "composeInhibitors ad opts (Some f) msg now s = (False, s', calls)"
  shows "\<exists>k. stops_at ad opts (Some f) msg now s calls k"
proof -
  consider (d) "\<not> f msg"
    | (u) "f msg" "\<not> fst (allowUsage opts msg now s)"
    | (n) "f msg" "fst (allowUsage opts msg now s)" "\<not> allowNSFW opts msg"
    | (p) "f msg" "fst (allowUsage opts msg now s)" "allowNSFW opts msg"
          "\<not> allowPerm ad opts msg"
    using assms by (auto simp: composeInhibitors_hook split: if_splits)
  then show ?thesis
  proof cases
    case d
    with assms have "stops_at ad opts (Some f) msg now s calls 0"
      by (auto simp: composeInhibitors_hook stops_at_def gate_order_def)
    then show ?thesis ..
  next
    case u
    with assms have "stops_at ad opts (Some f) msg now s calls (Suc 0)"
      by (auto simp: composeInhibitors_hook stops_at_def gate_order_def)
    then show ?thesis ..
  next
    case n
    with assms have "stops_at ad opts (Some f) msg now s calls (Suc (Suc 0))"
      by (auto simp: composeInhibitors_hook stops_at_def gate_order_def all_less_2)
    then show ?thesis ..
  next
    case p
    with assms have "stops_at ad opts (Some f) msg now s calls (Suc (Suc (Suc 0)))"
      by (auto simp: composeInhibitors_hook stops_at_def gate_order_def all_less_3)
    then show ?thesis ..
  qed
qed

lemma passes_all:
  assumes "composeInhibitors ad opts hook msg now s = (True, s', calls)"
  shows "calls = gate_order hook
     \<and> (\<forall>g \<in> set (gate_order hook). gate_passes ad opts hook msg now s g)"
  using assms
  by (cases hook)
     (auto simp: composeInhibitors_no_hook composeInhibitors_hook gate_order_def
           split: if_splits)

text \<open>
  C4. \<open>composeInhibitors\<close> runs its gates in the fixed order: \<open>shouldDispatch\<close>,
  usage, nsfw, permission. When it returns true every gate ran, in this order, and passed,
  and no notification hook was invoked. When it returns false the calls stop at the first
  gate that fails: the gates before it passed, no later gate ran, and the only
  notification hook invoked is that gate's own. In particular, when \<open>shouldDispatch\<close>
  resolves to false, the result is false, the state is untouched, and neither the usage,
  the nsfw nor the permission notification hook is invoked.
\<close>

theorem composeInhibitors_stops_at_first_failing_gate:
  assumes "composeInhibitors ad opts hook msg now s = (r, s', calls)"
  shows "(r \<longrightarrow> calls = gate_order hook
            \<and> (\<forall>g \<in> set (gate_order hook). gate_passes ad opts hook msg now s g))
     \<and> (\<not> r \<longrightarrow> (\<exists>k. stops_at ad opts hook msg now s calls k))
     \<and> ((\<exists>f. hook = Some f \<and> \<not> f msg) \<longrightarrow>
          \<not> r \<and> s' = s \<and> calls = [CallShouldDispatch]
          \<and> CallDidInhibitUsage \<notin> set calls \<and> CallDidInhibitNSFW \<notin> set calls
          \<and> CallDidInhibitPerm \<notin> set calls)"
proof (intro conjI impI)
  assume r
  with assms have "composeInhibitors ad opts hook msg now s = (True, s', calls)"
    by simp
  then have all: "calls = gate_order hook
     \<and> (\<forall>g \<in> set (gate_order hook). gate_passes ad opts hook msg now s g)"
    by (rule passes_all)
  then show "calls = gate_order hook" ..
  from all show "\<forall>g \<in> set (gate_order hook). gate_passes ad opts hook msg now s g" ..
next
  assume "\<not> r"
  with assms have "composeInhibitors ad opts hook msg now s = (False, s', calls)"
    by simp
  then show "\<exists>k. stops_at ad opts hook msg now s calls k"
    by (cases hook) (auto dest: stops_no_hook stops_hook)
next
  assume "\<exists>f. hook = Some f \<and> \<not> f msg"
  then obtain f where f: "hook = Some f" "\<not> f msg" by blast
  with assms have "r = False \<and> s' = s \<and> calls = [CallShouldDispatch]"
    by (simp add: composeInhibitors_hook)
  then show "\<not> r" "s' = s" "calls = [CallShouldDispatch]"
    "CallDidInhibitUsage \<notin> set calls" "CallDidInhibitNSFW \<notin> set calls"
    "CallDidInhibitPerm \<notin> set calls"
    by simp_all
qed


text \<open>A command that requires permission level 5, which the example service refuses.\<close>

definition restricted_options :: optional_command_options where
  "restricted_options =
     OptionalCommandOptions (Some ''r'') None None None None None None None
       (Some \<lparr>arg_exact = None, arg_level = Some 5\<rparr>)"

lemma merged_restricted_options:
  "permission (merge defaultOptions restricted_options) = \<lparr>exact = False, level = 5\<rparr>"
  "limit (merge defaultOptions restricted_options) = \<lparr>bucket = 1, time = 0, scope = ''user''\<rparr>"
  "nsfw (merge defaultOptions restricted_options) = False"
  by (simp_all add: restricted_options_def merge_def merge_permission_def merge_limit_def
        or_default_def defaultOptions_def)

theorem composeInhibitors_stops_at_first_failing_gate_witness:
  "composeInhibitors test_addon (merge defaultOptions restricted_options) (Some (\<lambda>m. False))
      test_message 0 fresh_state = (False, fresh_state, [CallShouldDispatch])
   \<and> \<not> allowPerm test_addon (merge defaultOptions restricted_options) test_message
   \<and> CallDidInhibitUsage \<notin> set [CallShouldDispatch]
   \<and> CallDidInhibitNSFW \<notin> set [CallShouldDispatch]
   \<and> CallDidInhibitPerm \<notin> set [CallShouldDispatch]
   \<and> composeInhibitors test_addon (merge defaultOptions restricted_options) (Some (\<lambda>m. True))
      test_message 0 fresh_state
       = (False, fresh_state,
          [CallShouldDispatch, CallAllowUsage, CallAllowNSFW, CallAllowPerm, CallDidInhibitPerm])
   \<and> (\<exists>k. stops_at test_addon (merge defaultOptions restricted_options) (Some (\<lambda>m. True))
          test_message 0 fresh_state
          [CallShouldDispatch, CallAllowUsage, CallAllowNSFW, CallAllowPerm, CallDidInhibitPerm]
          k)"
proof -
  let ?opts = "merge defaultOptions restricted_options"
  have p: "\<not> allowPerm test_addon ?opts test_message"
    by (simp add: allowPerm_def merged_restricted_options test_addon_def)
  have u: "allowUsage ?opts test_message 0 fresh_state = (True, fresh_state)"
    by (simp add: allowUsage_def merged_restricted_options)
  have n: "allowNSFW ?opts test_message"
    by (simp add: allowNSFW_def merged_restricted_options)
  have c: "composeInhibitors test_addon ?opts (Some (\<lambda>m. False)) test_message 0 fresh_state
      = (False, fresh_state, [CallShouldDispatch])"
    by (simp add: composeInhibitors_hook)
  have d: "composeInhibitors test_addon ?opts (Some (\<lambda>m. True)) test_message 0 fresh_state
      = (False, fresh_state,
         [CallShouldDispatch, CallAllowUsage, CallAllowNSFW, CallAllowPerm, CallDidInhibitPerm])"
    by (simp add: composeInhibitors_hook p u n)
  have f: "\<exists>f. Some (\<lambda>m :: message. False) = Some f \<and> \<not> f test_message"
    by simp
  note first = composeInhibitors_stops_at_first_failing_gate [OF c]
  note last = composeInhibitors_stops_at_first_failing_gate [OF d]
  from first f have quiet: "CallDidInhibitUsage \<notin> set [CallShouldDispatch]
      \<and> CallDidInhibitNSFW \<notin> set [CallShouldDispatch]
      \<and> CallDidInhibitPerm \<notin> set [CallShouldDispatch]"
    by blast
  from last have stop: "\<exists>k. stops_at test_addon ?opts (Some (\<lambda>m. True)) test_message 0
      fresh_state
      [CallShouldDispatch, CallAllowUsage, CallAllowNSFW, CallAllowPerm, CallDidInhibitPerm] k"
    by blast
  from c p quiet d stop show ?thesis by blast
qed


section \<open>Construction of the subcommands\<close>

lemma construction_bounds:
  "(\<forall>cmd n' evs. Command_constructor ad hook x n = Inr (cmd, n', evs) \<longrightarrow>
      n < n' \<and> (\<forall>e \<in> set evs. n \<le> new_parent e))"
  "(\<forall>subs n' evs. map_subcommands ad p cs n = Inr (subs, n', evs) \<longrightarrow>
      n \<le> n' \<and> (\<forall>e \<in> set evs. new_parent e = p \<or> n \<le> new_parent e))"
proof (induction ad hook x n and ad p cs n rule: Command_constructor_map_subcommands.induct)
  case (1 ad hook x n)
  show ?case
  proof (intro allI impI)
    fix cmd n' evs
    assume a: "Command_constructor ad hook x n = Inr (cmd, n', evs)"
    then obtain subs where c: "check_options x = None"
      and m: "map_subcommands ad n (commands (subcommands (merge defaultOptions x))) (Suc n)
                = Inr (subs, n', evs)"
      by (auto simp: Command_constructor.simps Let_def split: option.splits sum.splits)
    from "1.IH" [OF c refl] m
    have "Suc n \<le> n' \<and> (\<forall>e \<in> set evs. new_parent e = n \<or> Suc n \<le> new_parent e)"
      by blast
    then show "n < n' \<and> (\<forall>e \<in> set evs. n \<le> new_parent e)"
      by auto
  qed
next
  case (2 ad p n)
  show ?case by simp
next
  case (3 ad p Subcommand rest n)
  show ?case
  proof (intro allI impI)
    fix subs n' evs
    assume a: "map_subcommands ad p (Subcommand # rest) n = Inr (subs, n', evs)"
    then obtain x hook where s: "Subcommand = CommandSubclass x hook"
      by (cases Subcommand) auto
    from a s obtain subcommand n1 evs1 stored n2 evs2 subs' evs3 where
      c1: "Command_constructor ad hook x n = Inr (subcommand, n1, evs1)"
      and f: "isSubcommand (options subcommand)"
      and c2: "Command_constructor ad hook x n1 = Inr (stored, n2, evs2)"
      and r: "map_subcommands ad p rest n2 = Inr (subs', n', evs3)"
      and e: "evs = New p Subcommand n # evs1 @ New p Subcommand n1 # evs2 @ evs3"
      by (auto split: sum.splits if_splits)
    from "3.IH"(1) [OF s] c1 have b1: "n < n1" "\<forall>e \<in> set evs1. n \<le> new_parent e"
      by blast+
    from "3.IH"(2) [OF s c1 refl refl] f c2
    have b2: "n1 < n2" "\<forall>e \<in> set evs2. n1 \<le> new_parent e"
      by blast+
    from "3.IH"(3) [OF s c1 refl refl _ c2 refl refl] f r
    have b3: "n2 \<le> n'" "\<forall>e \<in> set evs3. new_parent e = p \<or> n2 \<le> new_parent e"
      by blast+
    from b1 b2 b3 e show "n \<le> n' \<and> (\<forall>e \<in> set evs. new_parent e = p \<or> n \<le> new_parent e)"
      by fastforce
  qed
qed


text \<open>
  The instantiations that a parent runs itself, apart from those its subcommands run for
  subcommands of their own; and the second, fourth, ... element of a list.
\<close>

fun every_second :: "'a list \<Rightarrow> 'a list" where
  "every_second (a # b # xs) = b # every_second xs"
| "every_second xs = []"

definition direct_events :: "nat \<Rightarrow> new_event list \<Rightarrow> new_event list" where
  "direct_events p evs = filter (\<lambda>e. new_parent e = p) evs"

lemma direct_events_nested:
  "\<forall>e \<in> set evs. n \<le> new_parent e \<Longrightarrow> p < n \<Longrightarrow> direct_events p evs = []"
  by (auto simp: direct_events_def filter_empty_conv)

lemma direct_events_append: "direct_events p (xs @ ys) = direct_events p xs @ direct_events p ys"
  by (simp add: direct_events_def)

lemma direct_events_Cons:
  "direct_events p (New q c k # evs) =
     (if q = p then New q c k # direct_events p evs else direct_events p evs)"
  by (simp add: direct_events_def)

lemma map_subcommands_unfold:
  assumes "map_subcommands ad p (Subcommand # rest) n = Inr (subs, n', evs)"
  obtains x hook subcommand n1 evs1 stored n2 evs2 subs' evs3 where
    "Subcommand = CommandSubclass x hook"
    "Command_constructor ad hook x n = Inr (subcommand, n1, evs1)"
    "isSubcommand (options subcommand)"
    "Command_constructor ad hook x n1 = Inr (stored, n2, evs2)"
    "map_subcommands ad p rest n2 = Inr (subs', n', evs3)"
    "subs = stored # subs'"
    "evs = New p Subcommand n # evs1 @ New p Subcommand n1 # evs2 @ evs3"
proof -
  from assms obtain x hook where s: "Subcommand = CommandSubclass x hook"
    by (cases Subcommand) auto
  with assms that show thesis
    by (auto split: sum.splits if_splits)
qed

lemma map_subcommands_direct:
  assumes "map_subcommands ad p cs n = Inr (subs, n', evs)" and "p < n"
  shows "map new_class (direct_events p evs) = concat (map (\<lambda>c. [c, c]) cs)
     \<and> map oid subs = every_second (map new_object (direct_events p evs))
     \<and> (\<forall>k \<in> set (map new_object (direct_events p evs)). n \<le> k \<and> k < n')
     \<and> distinct (map new_object (direct_events p evs))"
  using assms
proof (induction cs arbitrary: n subs n' evs)
  case Nil
  then show ?case by (simp add: direct_events_def)
next
  case (Cons Subcommand rest)
  from Cons.prems(1) obtain x hook subcommand n1 evs1 stored n2 evs2 subs' evs3 where
    s: "Subcommand = CommandSubclass x hook"
    and c1: "Command_constructor ad hook x n = Inr (subcommand, n1, evs1)"
    and c2: "Command_constructor ad hook x n1 = Inr (stored, n2, evs2)"
    and r: "map_subcommands ad p rest n2 = Inr (subs', n', evs3)"
    and subs: "subs = stored # subs'"
    and e: "evs = New p Subcommand n # evs1 @ New p Subcommand n1 # evs2 @ evs3"
    by (rule map_subcommands_unfold)
  from construction_bounds(1) c1 have b1: "n < n1" "\<forall>e \<in> set evs1. n \<le> new_parent e"
    by blast+
  from construction_bounds(1) c2 have b2: "n1 < n2" "\<forall>e \<in> set evs2. n1 \<le> new_parent e"
    by blast+
  from construction_bounds(2) r have b3: "n2 \<le> n'"
    by blast
  from b1 b2 Cons.prems(2) have p: "p < n1" "p < n2" by simp_all
  have d1: "direct_events p evs1 = []"
    using b1(2) Cons.prems(2) by (rule direct_events_nested)
  have d2: "direct_events p evs2 = []"
    using b2(2) p(1) by (rule direct_events_nested)
  have d: "direct_events p evs = New p Subcommand n # New p Subcommand n1 # direct_events p evs3"
    by (simp add: e direct_events_append direct_events_Cons d1 d2)
  from Cons.IH [OF r p(2)]
  have ih: "map new_class (direct_events p evs3) = concat (map (\<lambda>c. [c, c]) rest)"
    "map oid subs' = every_second (map new_object (direct_events p evs3))"
    "\<forall>k \<in> set (map new_object (direct_events p evs3)). n2 \<le> k \<and> k < n'"
    "distinct (map new_object (direct_events p evs3))"
    by blast+
  from constructed_fields [OF c2] have o: "oid stored = n1" by simp
  have 1: "map new_class (direct_events p evs) = concat (map (\<lambda>c. [c, c]) (Subcommand # rest))"
    by (simp add: d ih(1))
  have 2: "map oid subs = every_second (map new_object (direct_events p evs))"
    by (simp add: d subs o ih(2))
  have 3: "\<forall>k \<in> set (map new_object (direct_events p evs)). n \<le> k \<and> k < n'"
    using ih(3) b1(1) b2(1) b3 by (auto simp: d)
  have 4: "distinct (map new_object (direct_events p evs))"
    using ih(3,4) b1(1) b2(1) by (auto simp: d)
  from 1 2 3 4 show ?case by blast
qed

lemma Command_constructor_unfold:
  assumes "Command_constructor ad hook x n = Inr (cmd, n', evs)"
  shows "map_subcommands ad n (commands (subcommands (options cmd))) (Suc n)
           = Inr (instantiatedSubcommands cmd, n', evs)"
  using assms
  by (auto simp: Command_constructor.simps Let_def split: option.splits sum.splits)

text \<open>
  C7. In a construction that returns, the parent's constructor instantiates the classes
  of its subcommand list in order, each class exactly twice in a row. The instances it
  stores in \<open>instantiatedSubcommands\<close> are those of every second instantiation; all
  instantiations make distinct objects, so the instance whose flag was checked is not the
  one stored.
\<close>

theorem each_subcommand_constructed_twice:
  assumes "Command_constructor ad hook x n = Inr (cmd, n', evs)"
  shows "map new_class (direct_events (oid cmd) evs)
           = concat (map (\<lambda>c. [c, c]) (commands (subcommands (options cmd))))
     \<and> map oid (instantiatedSubcommands cmd)
           = every_second (map new_object (direct_events (oid cmd) evs))
     \<and> distinct (map new_object (direct_events (oid cmd) evs))"
proof -
  from constructed_fields [OF assms] have o: "oid cmd = n" by simp
  have "n < Suc n" by simp
  with Command_constructor_unfold [OF assms]
  have "map new_class (direct_events n evs)
           = concat (map (\<lambda>c. [c, c]) (commands (subcommands (options cmd))))
     \<and> map oid (instantiatedSubcommands cmd)
           = every_second (map new_object (direct_events n evs))
     \<and> (\<forall>k \<in> set (map new_object (direct_events n evs)). Suc n \<le> k \<and> k < n')
     \<and> distinct (map new_object (direct_events n evs))"
    by (rule map_subcommands_direct)
  then show ?thesis by (simp add: o)
qed

lemma map_subcommands_valid:
  assumes "map_subcommands ad p cs n = Inr (subs, n', evs)"
  shows "\<forall>c \<in> set cs. \<exists>x hook. c = CommandSubclass x hook
            \<and> isSubcommand (merge defaultOptions x)"
  using assms
proof (induction cs arbitrary: n subs n' evs)
  case Nil
  then show ?case by simp
next
  case (Cons Subcommand rest)
  from Cons.prems obtain x hook subcommand n1 evs1 stored n2 evs2 subs' evs3 where
    s: "Subcommand = CommandSubclass x hook"
    and c1: "Command_constructor ad hook x n = Inr (subcommand, n1, evs1)"
    and f: "isSubcommand (options subcommand)"
    and r: "map_subcommands ad p rest n2 = Inr (subs', n', evs3)"
    by (rule map_subcommands_unfold)
  from constructed_fields [OF c1] f have "isSubcommand (merge defaultOptions x)"
    by simp
  with s Cons.IH [OF r] show ?case by simp
qed

lemma merged_commands:
  "arg_subcommands x = Some so \<Longrightarrow> arg_commands so = Some cs \<Longrightarrow>
   commands (subcommands (merge defaultOptions x)) = cs"
  by (simp add: merge_def merge_subcommands_def or_default_def)

text \<open>
  C6. When the subcommand list contains a class that does not extend \<open>Command\<close>, or
  one whose instance has \<open>options.isSubcommand\<close> false (the class leaves the flag out or
  sets it to false), the parent's constructor throws a NebulaError: no instance is
  returned, so no message is ever processed by it.
\<close>

theorem invalid_subcommand_class_throws:
  assumes "arg_subcommands x = Some so" and "arg_commands so = Some cs"
    and "c \<in> set cs"
    and "c = OtherClass
         \<or> (\<exists>y h. c = CommandSubclass y h \<and> \<not> isSubcommand (merge defaultOptions y))"
  shows "\<exists>e. Command_constructor ad hook x n = Inl (NebulaError e)"
proof (cases "Command_constructor ad hook x n")
  case (Inl err)
  then show ?thesis by (cases err) simp
next
  case (Inr res)
  obtain cmd n' evs where "res = (cmd, n', evs)" by (cases res)
  with Inr have ok: "Command_constructor ad hook x n = Inr (cmd, n', evs)" by simp
  from constructed_fields [OF ok] assms(1,2)
  have "commands (subcommands (options cmd)) = cs"
    by (simp add: merged_commands)
  with Command_constructor_unfold [OF ok]
  have "map_subcommands ad n cs (Suc n) = Inr (instantiatedSubcommands cmd, n', evs)"
    by simp
  then have "\<forall>c \<in> set cs. \<exists>y h. c = CommandSubclass y h
            \<and> isSubcommand (merge defaultOptions y)"
    by (rule map_subcommands_valid)
  with assms(3,4) have False by auto
  then show ?thesis ..
qed


text \<open>
  A class marked as a subcommand, and the options of a parent with a given subcommand
  list.
\<close>

definition subcommand_options :: optional_command_options where
  "subcommand_options =
     OptionalCommandOptions (Some ''s'') None None None (Some True) None None None None"

definition SubcommandClass :: constructor where
  "SubcommandClass = CommandSubclass subcommand_options None"

definition parent_options :: "constructor list \<Rightarrow> optional_command_options" where
  "parent_options cs =
     OptionalCommandOptions (Some ''p'') None None None None None None
       (Some (SubcommandsOptions None (Some cs))) None"

lemmas check_simps =
  check_options_def check_limit_def check_subcommands_def check_permission_def limitScopes_def

lemmas merge_simps =
  merge_def merge_limit_def merge_subcommands_def merge_permission_def or_default_def
  defaultOptions_def

lemma construct_subcommand:
  "Command_constructor ad None subcommand_options n =
     Inr (Command n ad (merge defaultOptions subcommand_options) None fresh_state [], Suc n, [])"
  by (simp add: Command_constructor.simps subcommand_options_def check_simps merge_simps
        fresh_state_def)

lemma merged_subcommand_options:
  "isSubcommand (merge defaultOptions subcommand_options)"
  by (simp add: subcommand_options_def merge_simps)

lemma merged_parent_options:
  "commands (subcommands (merge defaultOptions (parent_options cs))) = cs"
  by (simp add: parent_options_def merge_simps)

lemma check_parent_options:
  "check_options (parent_options cs) = (if cs = [] then Some (NebulaError
      ''The commands for subcommands options must have at least a command'') else None)"
  by (simp add: parent_options_def check_simps)

lemma construct_parent:
  "Command_constructor test_addon None (parent_options [SubcommandClass]) 0 =
     Inr (Command 0 test_addon (merge defaultOptions (parent_options [SubcommandClass])) None
            fresh_state
            [Command 2 test_addon (merge defaultOptions subcommand_options) None fresh_state []],
          3, [New 0 SubcommandClass 1, New 0 SubcommandClass 2])"
proof -
  have "map_subcommands test_addon 0 [SubcommandClass] (Suc 0) =
      Inr ([Command 2 test_addon (merge defaultOptions subcommand_options) None fresh_state []],
           3, [New 0 SubcommandClass 1, New 0 SubcommandClass 2])"
    by (simp add: SubcommandClass_def construct_subcommand merged_subcommand_options
                  numeral_2_eq_2 numeral_3_eq_3)
  then show ?thesis
    by (simp add: Command_constructor.simps [of _ _ "parent_options [SubcommandClass]"]
          check_parent_options merged_parent_options fresh_state_def)
qed


theorem each_subcommand_constructed_twice_witness:
  "Command_constructor test_addon None (parent_options [SubcommandClass]) 0 =
     Inr (Command 0 test_addon (merge defaultOptions (parent_options [SubcommandClass])) None
            fresh_state
            [Command 2 test_addon (merge defaultOptions subcommand_options) None fresh_state []],
          3, [New 0 SubcommandClass 1, New 0 SubcommandClass 2])
   \<and> map new_class (direct_events 0 [New 0 SubcommandClass 1, New 0 SubcommandClass 2])
       = [SubcommandClass, SubcommandClass]
   \<and> [2] = every_second
         (map new_object (direct_events 0 [New 0 SubcommandClass 1, New 0 SubcommandClass 2]))
   \<and> distinct
         (map new_object (direct_events 0 [New 0 SubcommandClass 1, New 0 SubcommandClass 2]))"
proof -
  let ?sub = "Command 2 test_addon (merge defaultOptions subcommand_options) None fresh_state []"
  let ?cmd = "Command 0 test_addon (merge defaultOptions (parent_options [SubcommandClass])) None
                fresh_state [?sub]"
  note c = construct_parent
  have sel: "oid ?cmd = 0" "map oid (instantiatedSubcommands ?cmd) = [2]"
    "concat (map (\<lambda>c. [c, c]) (commands (subcommands (options ?cmd))))
       = [SubcommandClass, SubcommandClass]"
    by (simp_all add: merged_parent_options)
  note t = each_subcommand_constructed_twice [OF c, unfolded sel]
  from c t show ?thesis by blast
qed

theorem invalid_subcommand_class_throws_witness:
  "arg_subcommands (parent_options [SubcommandClass, GuildLimitCommand])
       = Some (SubcommandsOptions None (Some [SubcommandClass, GuildLimitCommand]))
   \<and> arg_commands (SubcommandsOptions None (Some [SubcommandClass, GuildLimitCommand]))
       = Some [SubcommandClass, GuildLimitCommand]
   \<and> GuildLimitCommand \<in> set [SubcommandClass, GuildLimitCommand]
   \<and> \<not> isSubcommand (merge defaultOptions
          (OptionalCommandOptions (Some ''g'') None None None None None
             (Some \<lparr>arg_bucket = None, arg_time = Some 5000, arg_scope = Some ''guild''\<rparr>)
             None None))
   \<and> (\<exists>e. Command_constructor test_addon None
              (parent_options [SubcommandClass, GuildLimitCommand]) 0 = Inl (NebulaError e))
   \<and> OtherClass \<in> set [OtherClass]
   \<and> (\<exists>e. Command_constructor test_addon None (parent_options [OtherClass]) 0
              = Inl (NebulaError e))"
proof -
  let ?g = "OptionalCommandOptions (Some ''g'') None None None None None
             (Some \<lparr>arg_bucket = None, arg_time = Some 5000, arg_scope = Some ''guild''\<rparr>)
             None None"
  let ?cs = "[SubcommandClass, GuildLimitCommand]"
  have a: "arg_subcommands (parent_options ?cs) = Some (SubcommandsOptions None (Some ?cs))"
    by (simp add: parent_options_def)
  have b: "arg_commands (SubcommandsOptions None (Some ?cs)) = Some ?cs"
    by simp
  have m: "GuildLimitCommand \<in> set ?cs"
    by simp
  have f: "\<not> isSubcommand (merge defaultOptions ?g)"
    by (simp add: merge_simps)
  then have bad: "GuildLimitCommand = OtherClass
      \<or> (\<exists>y h. GuildLimitCommand = CommandSubclass y h
                \<and> \<not> isSubcommand (merge defaultOptions y))"
    by (simp add: GuildLimitCommand_def)
  have a': "arg_subcommands (parent_options [OtherClass])
      = Some (SubcommandsOptions None (Some [OtherClass]))"
    by (simp add: parent_options_def)
  have b': "arg_commands (SubcommandsOptions None (Some [OtherClass])) = Some [OtherClass]"
    by simp
  have m': "OtherClass \<in> set [OtherClass]"
    by simp
  have bad': "OtherClass = OtherClass
      \<or> (\<exists>y h. OtherClass = CommandSubclass y h \<and> \<not> isSubcommand (merge defaultOptions y))"
    by simp
  note first = invalid_subcommand_class_throws [OF a b m bad, of test_addon None 0]
  note second = invalid_subcommand_class_throws [OF a' b' m' bad', of test_addon None 0]
  from a b m f first m' second show ?thesis by blast
qed

text \<open>The two messages, on the examples.\<close>

lemma construct_flagless_subcommand:
  "Command_constructor test_addon None (parent_options [SubcommandClass, GuildLimitCommand]) 0
     = Inl (NebulaError ''subcommands must have isSubcommand set to true'')"
  by (simp add: Command_constructor.simps parent_options_def SubcommandClass_def
        subcommand_options_def GuildLimitCommand_def check_simps merge_simps)

lemma construct_foreign_subcommand:
  "Command_constructor test_addon None (parent_options [OtherClass]) 0
     = Inl (NebulaError ''subcommands must inherit the Command structure'')"
  by (simp add: Command_constructor.simps parent_options_def check_simps merge_simps)


section \<open>Validator (src/Validator/index.ts)\<close>

subsection \<open>Values, violations and validators\<close>

text \<open>
  \<open>Primitives = string | number | boolean\<close>; numbers are kept to the integers. The
  classes ValidationError, StringValidator, NumberValidator and BooleanValidator are
  imported by the file and are not under src/. A violation is the record of the three
  arguments that \<open>validate\<close> passes to \<open>new ValidationError\<close>: the raw value (which may
  be undefined), the key of the field and the type tag of its validator. Of a validator
  \<open>validate\<close> reads the type tag, the optional flag, the coercion (\<open>null\<close> is
  \<open>None\<close>) and the rules; these are the fields of the record.
\<close>

datatype primitive = PString string | PNumber int | PBoolean bool

record validation_error =
  err_value :: "string option"
  err_key :: string
  err_type :: string

record value_store_entry =
  entry_value :: primitive
  entry_type :: string
  entry_rawValue :: string

type_synonym value_store = "string \<rightharpoonup> value_store_entry"

record rule_arguments =
  rule_value :: primitive
  rule_rawValue :: "string option"
  rule_key :: string
  rule_ref :: "string \<Rightarrow> value_store_entry option"
  rule_message :: message

text \<open>
  A rule answers whether the value passes. A failing rule leaves its violations in the
  scratch list \<open>errs\<close> of its validator, which \<open>validate\<close> empties before it runs the
  rules of the field and reads after them: a rule takes the list and returns it with its
  answer. Each field has a validator of its own.
\<close>

type_synonym validation_rule =
  "rule_arguments \<Rightarrow> validation_error list \<Rightarrow> bool \<times> validation_error list"

record validator =
  validator_type :: string
  flags_optional :: bool
  coerce :: "string \<Rightarrow> primitive option"
  rules :: "validation_rule list"

record validator_options =
  abortEarly :: bool
  coerce_values :: bool

text \<open>
  What \<open>validate\<close> returns: an object, as the list of its keys in insertion order, each
  with a value, \<open>null\<close>, \<open>undefined\<close> or a list of violations. The calls of the
  coercions and of the rules are recorded in the order they are made. Reading a property of
  \<open>undefined\<close> is a TypeError.
\<close>

datatype field_result =
  Value primitive | Null | Undefined | Errors "validation_error list"

datatype validator_call = CoerceCall string string | RuleCall string nat

datatype js_error = TypeError

text \<open>\<open>values[i]\<close>: undefined beyond the end of the array.\<close>

definition at_index :: "'a list \<Rightarrow> nat \<Rightarrow> 'a option" where
  "at_index xs i = (if i < length xs then Some (xs ! i) else None)"

subsection \<open>The two passes\<close>

text \<open>
  The first loop, from index \<open>i\<close> on, over the entries that remain: it returns from
  \<open>validate\<close> (\<open>Inl\<close>, with the object returned) or ends with the value store.
\<close>

fun coercion_pass ::
  "(string \<times> validator) list \<Rightarrow> string list \<Rightarrow> nat \<Rightarrow> value_store \<Rightarrow>
     ((string \<times> field_result) list + value_store) \<times> validator_call list" where
  "coercion_pass [] values i valueStore = (Inr valueStore, [])"
| "coercion_pass ((currKey, currValidator) # rest) values i valueStore =
     (let currValue = at_index values i;
          err = [\<lparr>err_value = currValue, err_key = currKey,
                  err_type = validator_type currValidator\<rparr>]
      in
      case currValue of
        None \<Rightarrow>
          if \<not> flags_optional currValidator then (Inl [(currKey, Errors err)], [])
          else (Inl [(currKey, Null)], [])
      | Some raw \<Rightarrow>
          (case coerce currValidator raw of
             None \<Rightarrow> (Inl [(currKey, Errors err)], [CoerceCall currKey raw])
           | Some coerced \<Rightarrow>
               let (out, calls) =
                     coercion_pass rest values (Suc i)
                       (valueStore(currKey \<mapsto>
                          \<lparr>entry_value = coerced, entry_type = validator_type currValidator,
                           entry_rawValue = raw\<rparr>))
               in (out, CoerceCall currKey raw # calls)))"

text \<open>
  The loop over the rules of one field, from rule number \<open>j\<close> on: it returns from
  \<open>validate\<close> at the first failing rule when \<open>abortEarly\<close> is set (\<open>Inl\<close>, with the
  violations of the field), or ends with the violations gathered.
\<close>

fun run_rules ::
  "validation_rule list \<Rightarrow> rule_arguments \<Rightarrow> bool \<Rightarrow> nat \<Rightarrow> validation_error list \<Rightarrow>
     (validation_error list + validation_error list) \<times> validator_call list" where
  "run_rules [] args abort j errs = (Inr errs, [])"
| "run_rules (rule # rest) args abort j errs =
     (let (result, errs') = rule args errs in
      if \<not> result \<and> abort then (Inl errs', [RuleCall (rule_key args) j])
      else
        let (out, calls) = run_rules rest args abort (Suc j) errs'
        in (out, RuleCall (rule_key args) j # calls))"

text \<open>The second loop, from index \<open>i\<close> on, with the results gathered so far.\<close>

fun rule_pass ::
  "validator_options \<Rightarrow> message \<Rightarrow> (string \<times> validator) list \<Rightarrow> string list \<Rightarrow> nat \<Rightarrow>
     value_store \<Rightarrow> (string \<times> field_result) list \<Rightarrow>
     (js_error + (string \<times> field_result) list) \<times> validator_call list" where
  "rule_pass opts message [] values i valueStore results = (Inr results, [])"
| "rule_pass opts message ((currKey, currValidator) # rest) values i valueStore results =
     (case valueStore currKey of
        None \<Rightarrow> (Inl TypeError, [])
      | Some entry \<Rightarrow>
          let currRawValue = at_index values i;
              args = \<lparr>rule_value = entry_value entry, rule_rawValue = currRawValue,
                      rule_key = currKey, rule_ref = valueStore, rule_message = message\<rparr>
          in
          (case run_rules (rules currValidator) args (abortEarly opts) 0 [] of
             (Inl errs, calls) \<Rightarrow> (Inr [(currKey, Errors errs)], calls)
           | (Inr errs, calls) \<Rightarrow>
               let r = (if length errs \<noteq> 0 then Errors errs
                        else if coerce_values opts then Value (entry_value entry)
                        else (case currRawValue of
                                None \<Rightarrow> Undefined
                              | Some raw \<Rightarrow> Value (PString raw)));
                   (out, calls') =
                     rule_pass opts message rest values (Suc i) valueStore
                       (AList.update currKey r results)
               in (out, calls @ calls')))"

text \<open>
  \<open>Validator.validate\<close>. The schema is given as its entries in declaration order
  (\<open>Util.entriesOf(schema)\<close>).
\<close>

definition validate ::
  "validator_options \<Rightarrow> message \<Rightarrow> string list \<Rightarrow> (string \<times> validator) list \<Rightarrow>
     (js_error + (string \<times> field_result) list) \<times> validator_call list" where
  "validate opts message values validatorEntries =
     (case coercion_pass validatorEntries values 0 Map.empty of
        (Inl returned, calls) \<Rightarrow> (Inr returned, calls)
      | (Inr valueStore, calls) \<Rightarrow>
          let (out, calls') = rule_pass opts message validatorEntries values 0 valueStore []
          in (out, calls @ calls'))"

subsection \<open>Validators used as examples\<close>

text \<open>
  Modelled from the spec: the string and number validators, whose classes are not under
  src/. The coercion of a string validator keeps the token; the coercion of a number
  validator parses the token as a number and fails (\<open>null\<close>) on a token that is not one.
  Neither has a rule.
\<close>

definition digit_value :: "char \<Rightarrow> nat option" where
  "digit_value c = map_of (zip ''0123456789'' [0, 1, 2, 3, 4, 5, 6, 7, 8, 9]) c"

fun parse_digits :: "nat \<Rightarrow> string \<Rightarrow> nat option" where
  "parse_digits acc [] = Some acc"
| "parse_digits acc (c # cs) =
     (case digit_value c of None \<Rightarrow> None | Some d \<Rightarrow> parse_digits (10 * acc + d) cs)"

definition parse_number :: "string \<Rightarrow> int option" where
  "parse_number s = (if s = [] then None else map_option int (parse_digits 0 s))"

definition string_validator :: "bool \<Rightarrow> validator" where
  "string_validator optional =
     \<lparr>validator_type = ''string'', flags_optional = optional,
      coerce = (\<lambda>s. Some (PString s)), rules = []\<rparr>"

definition number_validator :: "bool \<Rightarrow> validator" where
  "number_validator optional =
     \<lparr>validator_type = ''number'', flags_optional = optional,
      coerce = (\<lambda>s. map_option PNumber (parse_number s)), rules = []\<rparr>"

definition default_validator_options :: validator_options where
  "default_validator_options = \<lparr>abortEarly = True, coerce_values = True\<rparr>"

subsection \<open>A missing token\<close>

text \<open>
  The object returned for a field whose token is undefined, and the coercions called for
  the fields that have a token.
\<close>

definition missing_result :: "string \<Rightarrow> validator \<Rightarrow> (string \<times> field_result) list" where
  "missing_result k v =
     [(k, if flags_optional v then Null
          else Errors [\<lparr>err_value = None, err_key = k, err_type = validator_type v\<rparr>])]"

definition coerce_calls :: "(string \<times> validator) list \<Rightarrow> string list \<Rightarrow> validator_call list" where
  "coerce_calls entries raws = map (\<lambda>(e, raw). CoerceCall (fst e) raw) (zip entries raws)"

lemma at_end: "at_index xs (length xs) = None"
  by (simp add: at_index_def)

lemma coercion_pass_missing:
  assumes "i + length pre = length values"
    and "\<forall>(e, raw) \<in> set (zip pre (drop i values)). coerce (snd e) raw \<noteq> None"
  shows "coercion_pass (pre @ (k, v) # post) values i valueStore =
     (Inl (missing_result k v), coerce_calls pre (drop i values))"
  using assms
proof (induction pre arbitrary: i valueStore)
  case Nil
  then have "at_index values i = None" by (simp add: at_index_def)
  then show ?case by (simp add: missing_result_def coerce_calls_def)
next
  case (Cons e pre)
  obtain k' v' where e: "e = (k', v')" by (cases e)
  from Cons.prems(1) have i: "i < length values" by simp
  then have d: "drop i values = values ! i # drop (Suc i) values"
    by (simp add: Cons_nth_drop_Suc)
  from i have a: "at_index values i = Some (values ! i)" by (simp add: at_index_def)
  from Cons.prems(2) d e obtain c where c: "coerce v' (values ! i) = Some c"
    and rest: "\<forall>(e, raw) \<in> set (zip pre (drop (Suc i) values)). coerce (snd e) raw \<noteq> None"
    by auto
  from Cons.prems(1) have "Suc i + length pre = length values" by simp
  from Cons.IH [OF this rest]
  have "\<And>st. coercion_pass (pre @ (k, v) # post) values (Suc i) st =
     (Inl (missing_result k v), coerce_calls pre (drop (Suc i) values))" .
  then show ?case
    by (simp add: e a c d coerce_calls_def)
qed

text \<open>
  C3 (as amended). When the first field, in declaration order, whose raw token is missing
  is optional, and the token of every earlier field coerces, \<open>validate\<close> returns at once
  an object that maps only that field to \<open>null\<close>: the coercions called are those of the
  earlier fields, no later field is coerced and no rule of any field runs.
\<close>

theorem validate_missing_optional_returns_null:
  assumes "length values = length pre"
    and "\<forall>(e, raw) \<in> set (zip pre values). coerce (snd e) raw \<noteq> None"
    and "flags_optional v"
  shows "validate opts message values (pre @ (k, v) # post) =
     (Inr [(k, Null)], coerce_calls pre values)"
proof -
  from assms(1) have "0 + length pre = length values" by simp
  moreover from assms(2)
  have "\<forall>(e, raw) \<in> set (zip pre (drop 0 values)). coerce (snd e) raw \<noteq> None" by simp
  ultimately have "coercion_pass (pre @ (k, v) # post) values 0 Map.empty =
     (Inl (missing_result k v), coerce_calls pre (drop 0 values))"
    by (rule coercion_pass_missing)
  with assms(3) show ?thesis
    by (simp add: validate_def missing_result_def)
qed

text \<open>
  C2 (as amended). When the first field, in declaration order, whose token is undefined is
  not optional, and the token of every earlier field coerces, \<open>validate\<close> returns an
  object keyed by exactly that field, whose value is a list of exactly one violation; the
  violation carries the undefined value, the key of the field and the type tag of the
  field's validator.
\<close>

theorem validate_missing_required_returns_error:
  assumes "length values = length pre"
    and "\<forall>(e, raw) \<in> set (zip pre values). coerce (snd e) raw \<noteq> None"
    and "\<not> flags_optional v"
  shows "validate opts message values (pre @ (k, v) # post) =
     (Inr [(k, Errors [\<lparr>err_value = None, err_key = k, err_type = validator_type v\<rparr>])],
      coerce_calls pre values)"
proof -
  from assms(1) have "0 + length pre = length values" by simp
  moreover from assms(2)
  have "\<forall>(e, raw) \<in> set (zip pre (drop 0 values)). coerce (snd e) raw \<noteq> None" by simp
  ultimately have "coercion_pass (pre @ (k, v) # post) values 0 Map.empty =
     (Inl (missing_result k v), coerce_calls pre (drop 0 values))"
    by (rule coercion_pass_missing)
  with assms(3) show ?thesis
    by (simp add: validate_def missing_result_def)
qed

lemma coerce_42: "coerce (number_validator False) ''42'' = Some (PNumber 42)"
  by (simp add: number_validator_def parse_number_def digit_value_def)

lemma coerce_x: "coerce (number_validator False) ''x'' = None"
  by (simp add: number_validator_def parse_number_def digit_value_def)

theorem validate_missing_optional_returns_null_witness:
  "length [''42''] = length [(''a'', number_validator False)]
   \<and> coerce (number_validator False) ''42'' = Some (PNumber 42)
   \<and> flags_optional (string_validator True)
   \<and> validate default_validator_options test_message [''42'']
        ([(''a'', number_validator False)] @ (''b'', string_validator True)
           # [(''c'', string_validator False)])
       = (Inr [(''b'', Null)], [CoerceCall ''a'' ''42''])"
proof -
  have l: "length [''42''] = length [(''a'', number_validator False)]" by simp
  have c: "\<forall>(e, raw) \<in> set (zip [(''a'', number_validator False)] [''42'']).
      coerce (snd e) raw \<noteq> None"
    by (simp add: coerce_42)
  have f: "flags_optional (string_validator True)"
    by (simp add: string_validator_def)
  have calls: "coerce_calls [(''a'', number_validator False)] [''42''] = [CoerceCall ''a'' ''42'']"
    by (simp add: coerce_calls_def)
  note t = validate_missing_optional_returns_null
      [OF l c f, of default_validator_options test_message "''b''"
         "[(''c'', string_validator False)]", unfolded calls]
  from l coerce_42 f t show ?thesis by blast
qed

theorem validate_missing_required_returns_error_witness:
  "length [''42''] = length [(''a'', number_validator False)]
   \<and> coerce (number_validator False) ''42'' = Some (PNumber 42)
   \<and> \<not> flags_optional (string_validator False)
   \<and> validate default_validator_options test_message [''42'']
        ([(''a'', number_validator False)] @ (''b'', string_validator False)
           # [(''c'', string_validator True)])
       = (Inr [(''b'', Errors [\<lparr>err_value = None, err_key = ''b'', err_type = ''string''\<rparr>])],
          [CoerceCall ''a'' ''42''])"
proof -
  have l: "length [''42''] = length [(''a'', number_validator False)]" by simp
  have c: "\<forall>(e, raw) \<in> set (zip [(''a'', number_validator False)] [''42'']).
      coerce (snd e) raw \<noteq> None"
    by (simp add: coerce_42)
  have f: "\<not> flags_optional (string_validator False)"
    by (simp add: string_validator_def)
  have calls: "coerce_calls [(''a'', number_validator False)] [''42''] = [CoerceCall ''a'' ''42'']"
    by (simp add: coerce_calls_def)
  have ty: "validator_type (string_validator False) = ''string''"
    by (simp add: string_validator_def)
  note t = validate_missing_required_returns_error
      [OF l c f, of default_validator_options test_message "''b''"
         "[(''c'', string_validator True)]", unfolded calls ty]
  from l coerce_42 f t show ?thesis by blast
qed

text \<open>
  The claim C2 as first stated fails twice. The violation of a missing string field has
  the kind \<open>string\<close>, the type tag of its validator. And with an optional field \<open>a\<close>
  before a required field \<open>b\<close> and no token at all, the token of \<open>b\<close> is undefined, yet
  the call returns \<open>a\<close> mapped to \<open>null\<close> and no error.
\<close>

theorem validate_required_kind_counterexample:
  "validate default_validator_options test_message [] [(''a'', string_validator False)]
     = (Inr [(''a'', Errors [\<lparr>err_value = None, err_key = ''a'', err_type = ''string''\<rparr>])], [])
   \<and> ''string'' \<noteq> ''required''
   \<and> at_index ([] :: string list) 1 = None
   \<and> \<not> flags_optional (string_validator False)
   \<and> validate default_validator_options test_message []
        [(''a'', string_validator True), (''b'', string_validator False)]
     = (Inr [(''a'', Null)], [])"
  by (simp add: validate_def string_validator_def at_index_def)

text \<open>
  The claim C3 as first stated fails when an earlier token does not coerce: the first
  field whose token is missing, \<open>b\<close>, is optional, yet the call returns the violation of
  \<open>a\<close>.
\<close>

theorem validate_earlier_coercion_failure_counterexample:
  "at_index [''x''] 1 = None
   \<and> flags_optional (string_validator True)
   \<and> validate default_validator_options test_message [''x'']
        [(''a'', number_validator False), (''b'', string_validator True)]
     = (Inr [(''a'', Errors [\<lparr>err_value = Some ''x'', err_key = ''a'', err_type = ''number''\<rparr>])],
        [CoerceCall ''a'' ''x''])"
  by (simp add: validate_def string_validator_def at_index_def coerce_x)
     (simp add: number_validator_def)


section \<open>ArraySchema (src/validator/ArraySchema.ts)\<close>

subsection \<open>Values, results and options\<close>

text \<open>
  The value to validate is \<open>unknown\<close>: any JavaScript value, here undefined, null, a
  boolean, a number (kept to the integers), a string or an array of values.
\<close>

datatype js_value =
  JUndefined | JNull | JBoolean bool | JNumber int | JString string | JArray "js_value list"

text \<open>
  Modelled from the spec: a violation, whose class is not under src/, has a kind and the
  path it is attributed to.
\<close>

record violation =
  kind :: string
  at_path :: "string option"

text \<open>
  \<open>ValidationResults\<close> has the three properties of the object literal in
  \<open>ArraySchema.validate\<close>; of \<open>ValidatorOptions\<close> the method reads and writes
  \<open>shouldAbortEarly\<close>, \<open>path\<close> and \<open>parent\<close>, each of which may be left out.
\<close>

record validation_results =
  result_value :: js_value
  errors :: "violation list"
  pass :: bool

record schema_options =
  shouldAbortEarly :: "bool option"
  path :: "string option"
  parent :: "js_value option"

text \<open>
  The method \<open>validate\<close> of a schema, as a function of its two arguments. The base class
  Schema is not under src/: of an array schema, \<open>super.validate\<close> (the base checks, with
  the rules of the array) is a parameter, and so is the method \<open>validate\<close> of the inner
  schema \<open>_schema\<close>, when there is one.
\<close>

type_synonym schema_validate = "js_value \<Rightarrow> schema_options \<Rightarrow> validation_results"

record array_schema =
  super_validate :: schema_validate
  item_schema :: "schema_validate option"

subsection \<open>The path of an element\<close>

text \<open>\<open>i.toString()\<close> for an index: the decimal digits, most significant first.\<close>

definition digit_char :: "nat \<Rightarrow> char" where
  "digit_char d = ''0123456789'' ! d"

function toString :: "nat \<Rightarrow> string" where
  "toString i = (if i < 10 then [digit_char i] else toString (i div 10) @ [digit_char (i mod 10)])"
  by pat_completeness auto

termination toString
  by (relation "measure id") auto

declare toString.simps [simp del]

text \<open>\<open>path == null ? i.toString() : `${path}.${i}`\<close>, and the options of element \<open>i\<close>.\<close>

definition item_path :: "string option \<Rightarrow> nat \<Rightarrow> string" where
  "item_path p i = (case p of None \<Rightarrow> toString i | Some q \<Rightarrow> q @ ''.'' @ toString i)"

definition item_options :: "schema_options \<Rightarrow> js_value list \<Rightarrow> nat \<Rightarrow> schema_options" where
  "item_options opts arr i =
     opts\<lparr>path := Some (item_path (path opts) i), parent := Some (JArray arr)\<rparr>"

subsection \<open>validate\<close>

text \<open>
  The loop over the elements, from index \<open>i\<close> on, with the elements that remain. It
  stops at the first failing element when \<open>shouldAbortEarly\<close> is set; the result it
  returns then is the \<open>finalResult\<close> that the code after the loop returns as well.
\<close>

fun validate_items ::
  "schema_validate \<Rightarrow> schema_options \<Rightarrow> js_value list \<Rightarrow> bool \<Rightarrow> nat \<Rightarrow> js_value list \<Rightarrow>
     validation_results \<Rightarrow> validation_results" where
  "validate_items schema opts arr abort i [] finalResult = finalResult"
| "validate_items schema opts arr abort i (x # xs) finalResult =
     (let result = schema x (item_options opts arr i);
          finalResult1 = finalResult\<lparr>errors := errors finalResult @ errors result\<rparr>
      in
      if \<not> pass result then
        (let finalResult2 = finalResult1\<lparr>pass := False\<rparr> in
         if abort then finalResult2
         else validate_items schema opts arr abort (Suc i) xs finalResult2)
      else validate_items schema opts arr abort (Suc i) xs finalResult1)"

text \<open>
  \<open>ArraySchema.validate\<close> returns its result; the second component lists the values
  passed to \<open>Validator.setValue\<close>, a static method of a class that is not under src/.
\<close>

definition ArraySchema_validate ::
  "array_schema \<Rightarrow> js_value \<Rightarrow> schema_options \<Rightarrow> validation_results \<times> js_value list" where
  "ArraySchema_validate this v opts =
     (let abort = or_default True (shouldAbortEarly opts);
          finalResult = \<lparr>result_value = JNull, errors = [], pass = True\<rparr>;
          baseResult = super_validate this v opts
      in
      case item_schema this of
        None \<Rightarrow> (baseResult, [])
      | Some schema \<Rightarrow>
          if \<not> pass baseResult then (baseResult, [])
          else
            (case result_value baseResult of
               JArray arr \<Rightarrow>
                 let setValue = (if path opts = None then [JArray arr] else []);
                     finalResult' = validate_items schema opts arr abort 0 arr finalResult
                 in
                 if \<not> pass finalResult' then (finalResult', setValue)
                 else (finalResult'\<lparr>result_value := JArray arr\<rparr>, setValue)
             | _ \<Rightarrow> (baseResult, [])))"

subsection \<open>Schemas used as examples\<close>

text \<open>
  Modelled from the spec: \<open>Schema.validate\<close> for a number schema and for an array schema,
  both without rules and not optional; Schema.ts and NumberSchema.ts are not under src/.
  An undefined value yields one violation of kind \<open>required\<close> at the current path; a
  value that does not coerce to the type, or is not of the type, yields one violation of
  the kind of the type; otherwise the result passes with the value.
\<close>

definition NumberSchema_validate :: schema_validate where
  "NumberSchema_validate v opts =
     (case v of
        JUndefined \<Rightarrow>
          \<lparr>result_value = JNull, errors = [\<lparr>kind = ''required'', at_path = path opts\<rparr>],
           pass = False\<rparr>
      | JNumber n \<Rightarrow> \<lparr>result_value = JNumber n, errors = [], pass = True\<rparr>
      | JString s \<Rightarrow>
          (case parse_number s of
             Some n \<Rightarrow> \<lparr>result_value = JNumber n, errors = [], pass = True\<rparr>
           | None \<Rightarrow>
               \<lparr>result_value = JNull, errors = [\<lparr>kind = ''number'', at_path = path opts\<rparr>],
                pass = False\<rparr>)
      | _ \<Rightarrow>
          \<lparr>result_value = JNull, errors = [\<lparr>kind = ''number'', at_path = path opts\<rparr>],
           pass = False\<rparr>)"

definition Schema_validate_array :: schema_validate where
  "Schema_validate_array v opts =
     (case v of
        JUndefined \<Rightarrow>
          \<lparr>result_value = JNull, errors = [\<lparr>kind = ''required'', at_path = path opts\<rparr>],
           pass = False\<rparr>
      | JArray arr \<Rightarrow> \<lparr>result_value = JArray arr, errors = [], pass = True\<rparr>
      | _ \<Rightarrow>
          \<lparr>result_value = JNull, errors = [\<lparr>kind = ''array'', at_path = path opts\<rparr>],
           pass = False\<rparr>)"

definition array_of_numbers :: array_schema where
  "array_of_numbers =
     \<lparr>super_validate = Schema_validate_array, item_schema = Some NumberSchema_validate\<rparr>"

definition collect_all :: schema_options where
  "collect_all = \<lparr>shouldAbortEarly = Some False, path = None, parent = None\<rparr>"

subsection \<open>The elements that are validated\<close>

text \<open>
  What the specification says of the elements: element \<open>i\<close> is validated against the
  inner schema with the path of its index; with abort-early the validation stops after
  the first element that fails, and otherwise every element is validated.
\<close>

definition item_results ::
  "schema_validate \<Rightarrow> schema_options \<Rightarrow> js_value list \<Rightarrow> validation_results list" where
  "item_results schema opts arr =
     map (\<lambda>i. schema (arr ! i)
                 (opts\<lparr>path := Some (case path opts of
                                            None \<Rightarrow> toString i
                                          | Some p \<Rightarrow> p @ ''.'' @ toString i),
                          parent := Some (JArray arr)\<rparr>))
         [0..<length arr]"

definition validated :: "bool \<Rightarrow> validation_results list \<Rightarrow> validation_results list" where
  "validated abort rs = (if abort then take (Suc (length (takeWhile pass rs))) rs else rs)"

text \<open>The results of the loop, element by element, as the loop computes them.\<close>

fun results_from ::
  "schema_validate \<Rightarrow> schema_options \<Rightarrow> js_value list \<Rightarrow> nat \<Rightarrow> js_value list \<Rightarrow>
     validation_results list" where
  "results_from schema opts arr i [] = []"
| "results_from schema opts arr i (x # xs) =
     schema x (item_options opts arr i) # results_from schema opts arr (Suc i) xs"

lemma length_results_from: "length (results_from schema opts arr i xs) = length xs"
  by (induction xs arbitrary: i) simp_all

lemma nth_results_from:
  "j < length xs \<Longrightarrow>
   results_from schema opts arr i xs ! j = schema (xs ! j) (item_options opts arr (i + j))"
proof (induction xs arbitrary: i j)
  case Nil
  then show ?case by simp
next
  case (Cons x xs)
  show ?case
  proof (cases j)
    case 0
    then show ?thesis by simp
  next
    case (Suc m)
    with Cons.prems have "m < length xs" by simp
    from Cons.IH [OF this, of "Suc i"] Suc show ?thesis by simp
  qed
qed

lemma results_from_item_results:
  "results_from schema opts arr 0 arr = item_results schema opts arr"
proof (rule nth_equalityI)
  show "length (results_from schema opts arr 0 arr) = length (item_results schema opts arr)"
    by (simp add: length_results_from item_results_def)
next
  fix j
  assume "j < length (results_from schema opts arr 0 arr)"
  then have j: "j < length arr" by (simp add: length_results_from)
  then show "results_from schema opts arr 0 arr ! j = item_results schema opts arr ! j"
    by (simp add: nth_results_from item_results_def item_options_def item_path_def
          cong: option.case_cong)
qed

lemma validated_Cons:
  "validated abort (r # rs) = (if abort \<and> \<not> pass r then [r] else r # validated abort rs)"
  by (simp add: validated_def)

lemma validated_Nil: "validated abort [] = []"
  by (simp add: validated_def)

lemma validate_items_fields:
  "errors (validate_items schema opts arr abort i xs fin) =
     errors fin @ concat (map errors (validated abort (results_from schema opts arr i xs)))
   \<and> pass (validate_items schema opts arr abort i xs fin) =
     (pass fin \<and> list_all pass (validated abort (results_from schema opts arr i xs)))
   \<and> result_value (validate_items schema opts arr abort i xs fin) = result_value fin"
proof (induction xs arbitrary: i fin)
  case Nil
  show ?case by (simp add: validated_Nil)
next
  case (Cons x xs)
  let ?r = "schema x (item_options opts arr i)"
  let ?fin1 = "fin\<lparr>errors := errors fin @ errors ?r\<rparr>"
  show ?case
  proof (cases "pass ?r")
    case True
    with Cons.IH [of "Suc i" ?fin1] show ?thesis
      by (simp add: Let_def validated_Cons)
  next
    case False
    show ?thesis
    proof (cases abort)
      case True
      with False show ?thesis
        by (simp add: Let_def validated_Cons)
    next
      case nonabort: False
      with False Cons.IH [of "Suc i" "?fin1\<lparr>pass := False\<rparr>"] show ?thesis
        by (simp add: Let_def validated_Cons)
    qed
  qed
qed

lemma abort_default: "or_default True x = (x \<noteq> Some False)"
  by (cases x) (simp_all add: or_default_def)

text \<open>
  C5. For a value whose base validation passes with an array, and an array schema with an
  inner schema, \<open>ArraySchema.validate\<close> validates element \<open>i\<close> against the inner schema
  with the path \<open>i\<close> at top level and \<open>path.i\<close> when nested. With \<open>shouldAbortEarly\<close>
  (the default) it validates the elements up to the first that fails and returns with
  \<open>pass\<close> false there; with \<open>shouldAbortEarly\<close> false it validates every element. The
  errors it returns are those of the elements validated, in order; it passes when all of
  them pass, and then returns the array as its value, and \<open>null\<close> otherwise. On
  \<open>[1, 2, "x"]\<close> with an inner number schema and abort-early off, it returns \<open>pass\<close>
  false with one violation, attributed to the path \<open>2\<close>.
\<close>

theorem ArraySchema_validates_each_element:
  assumes "item_schema this = Some schema"
    and "pass (super_validate this v opts)"
    and "result_value (super_validate this v opts) = JArray arr"
  shows "errors (fst (ArraySchema_validate this v opts)) =
       concat (map errors
         (validated (shouldAbortEarly opts \<noteq> Some False) (item_results schema opts arr)))
     \<and> pass (fst (ArraySchema_validate this v opts)) =
       list_all pass
         (validated (shouldAbortEarly opts \<noteq> Some False) (item_results schema opts arr))
     \<and> result_value (fst (ArraySchema_validate this v opts)) =
       (if list_all pass
             (validated (shouldAbortEarly opts \<noteq> Some False) (item_results schema opts arr))
        then JArray arr else JNull)"
proof -
  let ?abort = "shouldAbortEarly opts \<noteq> Some False"
  let ?fin = "\<lparr>result_value = JNull, errors = [], pass = True\<rparr>"
  let ?loop = "validate_items schema opts arr ?abort 0 arr ?fin"
  have res: "fst (ArraySchema_validate this v opts) =
      (if \<not> pass ?loop then ?loop else ?loop\<lparr>result_value := JArray arr\<rparr>)"
    using assms by (simp add: ArraySchema_validate_def Let_def abort_default)
  from validate_items_fields [of schema opts arr ?abort 0 arr ?fin]
  have loop: "errors ?loop = concat (map errors (validated ?abort (item_results schema opts arr)))"
    "pass ?loop = list_all pass (validated ?abort (item_results schema opts arr))"
    "result_value ?loop = JNull"
    by (simp_all add: results_from_item_results)
  show ?thesis
    by (simp add: res loop)
qed

lemma toString_digit: "i < 10 \<Longrightarrow> toString i = [digit_char i]"
  by (simp add: toString.simps)

lemma NumberSchema_validate_examples:
  "NumberSchema_validate (JNumber n) opts = \<lparr>result_value = JNumber n, errors = [], pass = True\<rparr>"
  "NumberSchema_validate (JString ''x'') opts =
     \<lparr>result_value = JNull, errors = [\<lparr>kind = ''number'', at_path = path opts\<rparr>], pass = False\<rparr>"
  by (simp_all add: NumberSchema_validate_def parse_number_def digit_value_def)

lemma item_results_example:
  "item_results NumberSchema_validate collect_all [JNumber 1, JNumber 2, JString ''x''] =
     [\<lparr>result_value = JNumber 1, errors = [], pass = True\<rparr>,
      \<lparr>result_value = JNumber 2, errors = [], pass = True\<rparr>,
      \<lparr>result_value = JNull, errors = [\<lparr>kind = ''number'', at_path = Some ''2''\<rparr>],
       pass = False\<rparr>]"
  by (simp add: item_results_def collect_all_def NumberSchema_validate_examples upt_rec
        toString_digit digit_char_def)

theorem ArraySchema_validates_each_element_witness:
  "item_schema array_of_numbers = Some NumberSchema_validate
   \<and> pass (super_validate array_of_numbers (JArray [JNumber 1, JNumber 2, JString ''x''])
        collect_all)
   \<and> result_value (super_validate array_of_numbers
        (JArray [JNumber 1, JNumber 2, JString ''x'']) collect_all)
       = JArray [JNumber 1, JNumber 2, JString ''x'']
   \<and> errors (fst (ArraySchema_validate array_of_numbers
        (JArray [JNumber 1, JNumber 2, JString ''x'']) collect_all))
       = [\<lparr>kind = ''number'', at_path = Some ''2''\<rparr>]
   \<and> pass (fst (ArraySchema_validate array_of_numbers
        (JArray [JNumber 1, JNumber 2, JString ''x'']) collect_all)) = False
   \<and> result_value (fst (ArraySchema_validate array_of_numbers
        (JArray [JNumber 1, JNumber 2, JString ''x'']) collect_all)) = JNull"
proof -
  let ?v = "JArray [JNumber 1, JNumber 2, JString ''x'']"
  have i: "item_schema array_of_numbers = Some NumberSchema_validate"
    by (simp add: array_of_numbers_def)
  have p: "pass (super_validate array_of_numbers ?v collect_all)"
    by (simp add: array_of_numbers_def Schema_validate_array_def)
  have r: "result_value (super_validate array_of_numbers ?v collect_all) = ?v"
    by (simp add: array_of_numbers_def Schema_validate_array_def)
  have a: "(shouldAbortEarly collect_all \<noteq> Some False) = False"
    by (simp add: collect_all_def)
  have e: "validated False
      (item_results NumberSchema_validate collect_all [JNumber 1, JNumber 2, JString ''x'']) =
     [\<lparr>result_value = JNumber 1, errors = [], pass = True\<rparr>,
      \<lparr>result_value = JNumber 2, errors = [], pass = True\<rparr>,
      \<lparr>result_value = JNull, errors = [\<lparr>kind = ''number'', at_path = Some ''2''\<rparr>],
       pass = False\<rparr>]"
    by (simp add: validated_def item_results_example)
  note t = ArraySchema_validates_each_element [OF i p r, unfolded a e]
  from t have "errors (fst (ArraySchema_validate array_of_numbers ?v collect_all))
       = [\<lparr>kind = ''number'', at_path = Some ''2''\<rparr>]
   \<and> pass (fst (ArraySchema_validate array_of_numbers ?v collect_all)) = False
   \<and> result_value (fst (ArraySchema_validate array_of_numbers ?v collect_all)) = JNull"
    by simp
  with i p r show ?thesis by blast
qed

text \<open>Nested under the path \<open>args\<close>, with abort-early left at its default.\<close>

lemma abort_early_example:
  "fst (ArraySchema_validate array_of_numbers
         (JArray [JNumber 1, JString ''y'', JString ''x''])
         \<lparr>shouldAbortEarly = None, path = Some ''args'', parent = None\<rparr>)
     = \<lparr>result_value = JNull, errors = [\<lparr>kind = ''number'', at_path = Some ''args.1''\<rparr>],
        pass = False\<rparr>"
  by (simp add: ArraySchema_validate_def array_of_numbers_def Schema_validate_array_def
        or_default_def item_options_def item_path_def NumberSchema_validate_def
        parse_number_def digit_value_def toString_digit digit_char_def)


end
